theory Spec2Isabelle
  imports Main "HOL-Library.Word"
begin

unbundle bit_operations_syntax

section \<open>The process, the operating system and fatal termination\<close>

text \<open>
  The file under verification is \<^verbatim>\<open>src/base/utils/random.cpp\<close>: a class
  \<^verbatim>\<open>RandomLayer\<close> with three build variants (\<^verbatim>\<open>Q_OS_WIN\<close>, \<^verbatim>\<open>Q_OS_LINUX\<close>, otherwise)
  and the entry point \<^verbatim>\<open>Utils::Random::rand\<close>.

  Everything the code does besides computing is a call into the operating system or the C
  library. The model keeps the list of the calls the process has made so far; the answer to
  the \<open>n\<close>-th call of the process is given by the environment.
\<close>

type_synonym u32 = "32 word"
type_synonym u64 = "64 word"

text \<open>The arguments of a printf-style format, and \<^verbatim>\<open>qFatal(format, args...)\<close>, which
  prints the message and terminates the process.\<close>

datatype qarg = ArgStr string | ArgInt int

datatype fatal = Fatal string "qarg list"

text \<open>The outside calls of the three variants, with the arguments the code passes.
  Pointers are integers, 0 the null pointer. \<^verbatim>\<open>Utils::OS::loadWinAPI\<close> is declared in
  \<^verbatim>\<open>base/utils/os.h\<close>, which is not among the sources; the specification (6) gives it as
  "loadSymbol(library name, symbol name) -> function pointer or null", and its result is taken
  from the environment like the answer of any other call.\<close>

datatype call =
    LoadWinAPI string string  \<comment> \<open>\<^verbatim>\<open>Utils::OS::loadWinAPI(library, symbol)\<close>\<close>
  | ProcessPrng int nat       \<comment> \<open>the function pointer called, and \<^verbatim>\<open>cbData\<close>\<close>
  | Getrandom nat u32         \<comment> \<open>\<^verbatim>\<open>::getrandom(&buf, buflen, flags)\<close>\<close>
  | Fopen string string       \<comment> \<open>\<^verbatim>\<open>fopen(path, mode)\<close>\<close>
  | Fread nat nat int         \<comment> \<open>\<^verbatim>\<open>fread(&buf, size, nmemb, stream)\<close>\<close>
  | Fclose int                \<comment> \<open>\<^verbatim>\<open>fclose(stream)\<close>\<close>

text \<open>What a call answers: its return value (a pointer, a \<^verbatim>\<open>BOOL\<close>, a \<^verbatim>\<open>ssize_t\<close> or an item
  count), the contents of \<^verbatim>\<open>buf\<close> after the call (it is 0 before every call), and the value
  of \<^verbatim>\<open>errno\<close> after the call.\<close>

record reply =
  r_ret :: int
  r_buf :: u32
  r_errno :: int

record os =
  answers :: "nat \<Rightarrow> reply"
  strerror :: "int \<Rightarrow> string"

text \<open>The members of the three variants of \<^verbatim>\<open>class RandomLayer\<close>.\<close>

datatype RandomLayer =
    WinLayer int      \<comment> \<open>\<^verbatim>\<open>m_processPrng\<close>\<close>
  | LinuxLayer
  | PosixLayer int    \<comment> \<open>\<^verbatim>\<open>m_randDev\<close>\<close>

datatype target = Q_OS_WIN | Q_OS_LINUX | Q_OS_OTHER

text \<open>The process: the calls made so far, oldest first, and the function-local
  \<^verbatim>\<open>static RandomLayer layer\<close> of \<^verbatim>\<open>rand\<close>, \<open>None\<close> until it has been constructed.\<close>

record proc =
  trace :: "call list"
  layer :: "RandomLayer option"

text \<open>An operation either terminates the process (\<open>Inl\<close>, with the message and the process
  as it was at that moment) or returns a value and the process after it.\<close>

type_synonym 'a result = "(fatal \<times> proc) + ('a \<times> proc)"

definition syscall :: "os \<Rightarrow> call \<Rightarrow> proc \<Rightarrow> reply \<times> proc" where
  "syscall w c s = (answers w (length (trace s)), s\<lparr>trace := trace s @ [c]\<rparr>)"

section \<open>The three variants of RandomLayer\<close>

subsection \<open>Q_OS_WIN\<close>

definition win_RandomLayer :: "os \<Rightarrow> proc \<Rightarrow> RandomLayer result" where
  "win_RandomLayer w s =
     (case syscall w (LoadWinAPI ''BCryptPrimitives.dll'' ''ProcessPrng'') s of (r, s') \<Rightarrow>
        if r_ret r = 0 then Inl (Fatal ''Failed to load ProcessPrng().'' [], s')
        else Inr (WinLayer (r_ret r), s'))"

definition win_operator :: "os \<Rightarrow> int \<Rightarrow> proc \<Rightarrow> u32 result" where
  "win_operator w m_processPrng s =
     (case syscall w (ProcessPrng m_processPrng 4) s of (r, s') \<Rightarrow>
        if r_ret r = 0 then Inl (Fatal ''ProcessPrng() failed.'' [], s')
        else Inr (r_buf r, s'))"

subsection \<open>Q_OS_LINUX\<close>

definition RETRY_MAX :: int where
  "RETRY_MAX = 3"

text \<open>The loop of \<^verbatim>\<open>operator()\<close>, from the value \<open>i\<close> of its counter on. \<^verbatim>\<open>sizeof(buf)\<close> is 4.
  The test \<^verbatim>\<open>result == sizeof(buf)\<close> compares the \<^verbatim>\<open>ssize_t\<close> result as an unsigned value, so
  that it holds for the result 4 only. The statement after the loop is the last branch.\<close>

function getrandom_loop :: "os \<Rightarrow> int \<Rightarrow> proc \<Rightarrow> u32 result" where
  "getrandom_loop w i s =
     (if i < RETRY_MAX then
        (case syscall w (Getrandom 4 0) s of (r, s') \<Rightarrow>
           if r_ret r = 4 then Inr (r_buf r, s')
           else if r_ret r < 0 then
             Inl (Fatal ''getrandom() error. Reason: %s. Error code: %d.''
                    [ArgStr (strerror w (r_errno r)), ArgInt (r_errno r)], s')
           else getrandom_loop w (i + 1) s')
      else Inl (Fatal ''getrandom() failed. Reason: too many retries.'' [], s))"
  by pat_completeness auto
termination
  by (relation "measure (\<lambda>(w, i, s). nat (RETRY_MAX - i))") auto

declare getrandom_loop.simps [simp del]

definition linux_RandomLayer :: "os \<Rightarrow> proc \<Rightarrow> RandomLayer result" where
  "linux_RandomLayer w s = Inr (LinuxLayer, s)"

definition linux_operator :: "os \<Rightarrow> proc \<Rightarrow> u32 result" where
  "linux_operator w s = getrandom_loop w 0 s"

subsection \<open>Every other target\<close>

definition posix_RandomLayer :: "os \<Rightarrow> proc \<Rightarrow> RandomLayer result" where
  "posix_RandomLayer w s =
     (case syscall w (Fopen ''/dev/urandom'' ''rb'') s of (r, s') \<Rightarrow>
        if r_ret r = 0 then
          Inl (Fatal ''Failed to open /dev/urandom. Reason: %s. Error code: %d.''
                 [ArgStr (strerror w (r_errno r)), ArgInt (r_errno r)], s')
        else Inr (PosixLayer (r_ret r), s'))"

definition posix_operator :: "os \<Rightarrow> int \<Rightarrow> proc \<Rightarrow> u32 result" where
  "posix_operator w m_randDev s =
     (case syscall w (Fread 4 1 m_randDev) s of (r, s') \<Rightarrow>
        if r_ret r \<noteq> 1 then
          Inl (Fatal ''Read /dev/urandom error. Reason: %s. Error code: %d.''
                 [ArgStr (strerror w (r_errno r)), ArgInt (r_errno r)], s')
        else Inr (r_buf r, s'))"

definition posix_destructor :: "os \<Rightarrow> int \<Rightarrow> proc \<Rightarrow> proc" where
  "posix_destructor w m_randDev s = snd (syscall w (Fclose m_randDev) s)"

subsection \<open>The class as the build selects it\<close>

definition RandomLayer_ctor :: "target \<Rightarrow> os \<Rightarrow> proc \<Rightarrow> RandomLayer result" where
  "RandomLayer_ctor t w s =
     (case t of Q_OS_WIN \<Rightarrow> win_RandomLayer w s
              | Q_OS_LINUX \<Rightarrow> linux_RandomLayer w s
              | Q_OS_OTHER \<Rightarrow> posix_RandomLayer w s)"

definition RandomLayer_call :: "os \<Rightarrow> RandomLayer \<Rightarrow> proc \<Rightarrow> u32 result" where
  "RandomLayer_call w l s =
     (case l of WinLayer p \<Rightarrow> win_operator w p s
              | LinuxLayer \<Rightarrow> linux_operator w s
              | PosixLayer f \<Rightarrow> posix_operator w f s)"

definition RandomLayer_dtor :: "os \<Rightarrow> RandomLayer \<Rightarrow> proc \<Rightarrow> proc" where
  "RandomLayer_dtor w l s =
     (case l of WinLayer p \<Rightarrow> s
              | LinuxLayer \<Rightarrow> s
              | PosixLayer f \<Rightarrow> posix_destructor w f s)"

definition RandomLayer_min :: u32 where
  "RandomLayer_min = 0"

definition RandomLayer_max :: u32 where
  "RandomLayer_max = - 1"

section \<open>The uniform distribution\<close>

text \<open>
  Modelled from the spec: \<^verbatim>\<open>std::uniform_int_distribution<uint32_t>\<close> belongs to the C++
  standard library and is not part of the repository's sources. The specification (4.2)
  says of it: the sampler "draws one or more raw values from the shared source as needed by
  the distribution algorithm (standard rejection-based remapping to avoid modulo bias) and
  returns the integer in [min, max]". The definitions below are that remapping in the form
  the GNU C++ library gives it for a generator whose range is all of 32 bits: a raw draw
  is multiplied by the size of the range in 64 bits, the high word is the result, and a draw
  whose low word falls under \<open>2 ^ 32 mod size\<close> is rejected and replaced by the next one;
  when the range is the whole generator range, the raw draw is the result. The library's
  debug assertion \<open>a \<le> b\<close> is compiled out in a release build and is not modelled.
  The rejection loop has no bound, so the functions return an option, \<open>None\<close> for a run that
  rejects for ever.
\<close>

text \<open>A generator is a function from the process to a draw.\<close>

type_synonym urbg = "proc \<Rightarrow> u32 result"

text \<open>Modelled from the spec: the rejection loop of the remapping (4.2, "standard rejection-based
  remapping"), absent from the sources: while the low word of the product is under the
  threshold, draw again and multiply again.\<close>

partial_function (option) S_nd_loop :: "urbg \<Rightarrow> u32 \<Rightarrow> u32 \<Rightarrow> u64 \<Rightarrow> proc \<Rightarrow> u64 result option" where
  "S_nd_loop g range32 threshold product64 s =
     (if (ucast product64 :: u32) < threshold then
        (case g s of
           Inl e \<Rightarrow> Some (Inl e)
         | Inr (x, s') \<Rightarrow> S_nd_loop g range32 threshold (ucast x * ucast range32) s')
      else Some (Inr (product64, s)))"

declare S_nd_loop.simps [code]

text \<open>Modelled from the spec: the remapping of a raw draw into \<open>[0, range32)\<close> (4.2), absent from
  the sources: the high word of the 64-bit product of an accepted draw and the size of the
  range. It is called with a size that is not 0.\<close>

definition S_nd :: "urbg \<Rightarrow> u32 \<Rightarrow> proc \<Rightarrow> u32 result option" where
  "S_nd g range32 s =
     (case g s of
        Inl e \<Rightarrow> Some (Inl e)
      | Inr (x, s') \<Rightarrow>
          (let product64 = (ucast x * ucast range32 :: u64) in
           map_option (map_sum id (\<lambda>(p, s''). (ucast (drop_bit 32 p), s'')))
             (if (ucast product64 :: u32) < range32
              then S_nd_loop g range32 ((- range32) mod range32) product64 s'
              else Some (Inr (product64, s')))))"

text \<open>Modelled from the spec: \<^verbatim>\<open>uniform(layer)\<close> for the distribution constructed with \<open>(a, b)\<close>
  (4.2: "returns the integer in [min, max]"), absent from the sources. The generator's range is
  \<^verbatim>\<open>max() - min()\<close> of the layer; a requested range larger than that does not exist in 32 bits.\<close>

definition uniform_int_distribution :: "u32 \<Rightarrow> u32 \<Rightarrow> urbg \<Rightarrow> proc \<Rightarrow> u32 result option" where
  "uniform_int_distribution a b g s =
     (let urngrange = RandomLayer_max - RandomLayer_min;
          urange = b - a
      in if urngrange > urange then
           map_option (map_sum id (\<lambda>(r, s'). (r + a, s'))) (S_nd g (urange + 1) s)
         else
           (case g s of
              Inl e \<Rightarrow> Some (Inl e)
            | Inr (x, s') \<Rightarrow> Some (Inr (x - RandomLayer_min + a, s'))))"

section \<open>Utils::Random::rand\<close>

text \<open>The function-local static: constructed by the first call that reaches it.\<close>

definition static_layer :: "target \<Rightarrow> os \<Rightarrow> proc \<Rightarrow> RandomLayer result" where
  "static_layer t w s =
     (case layer s of
        Some l \<Rightarrow> Inr (l, s)
      | None \<Rightarrow>
          (case RandomLayer_ctor t w s of
             Inl e \<Rightarrow> Inl e
           | Inr (l, s') \<Rightarrow> Inr (l, s'\<lparr>layer := Some l\<rparr>)))"

definition rand :: "target \<Rightarrow> os \<Rightarrow> u32 \<Rightarrow> u32 \<Rightarrow> proc \<Rightarrow> u32 result option" where
  "rand t w mn mx s =
     (case static_layer t w s of
        Inl e \<Rightarrow> Some (Inl e)
      | Inr (l, s') \<Rightarrow> uniform_int_distribution mn mx (RandomLayer_call w l) s')"

text \<open>The static layer has static storage duration: when the process exits normally, the
  destructor of the layer runs if the layer was constructed. (\<^verbatim>\<open>qFatal\<close> aborts, and no
  destructor runs then.)\<close>

definition at_exit :: "os \<Rightarrow> proc \<Rightarrow> proc" where
  "at_exit w s = (case layer s of None \<Rightarrow> s | Some l \<Rightarrow> RandomLayer_dtor w l s)"

section \<open>Notions used in the statements\<close>

text \<open>The process an outcome ends in.\<close>

definition state_of :: "'a result \<Rightarrow> proc" where
  "state_of r = (case r of Inl (e, s) \<Rightarrow> s | Inr (v, s) \<Rightarrow> s)"

text \<open>The outcome of the draw number \<open>n\<close> of a generator (counting from 0): the first
  failing draw among the draws up to it, or its own value and the process after it.\<close>

fun draws :: "urbg \<Rightarrow> nat \<Rightarrow> proc \<Rightarrow> u32 result" where
  "draws g 0 s = g s"
| "draws g (Suc n) s = (case g s of Inl e \<Rightarrow> Inl e | Inr (x, s') \<Rightarrow> draws g n s')"

text \<open>An outcome with its value replaced by a function of it.\<close>

definition finish :: "(u32 \<Rightarrow> 'a) \<Rightarrow> u32 result \<Rightarrow> 'a result" where
  "finish f = map_sum id (\<lambda>(x, s). (f x, s))"

text \<open>What the distribution makes of an accepted raw draw, and which raw draws it rejects.\<close>

definition remap :: "u32 \<Rightarrow> u32 \<Rightarrow> u32 \<Rightarrow> u32" where
  "remap a b x =
     (if b - a = - 1 then x + a
      else ucast (drop_bit 32 (ucast x * ucast (b - a + 1) :: u64)) + a)"

definition rejected :: "u32 \<Rightarrow> u32 \<Rightarrow> u32 \<Rightarrow> bool" where
  "rejected a b x =
     (b - a \<noteq> - 1 \<and>
      (ucast (ucast x * ucast (b - a + 1) :: u64) :: u32) < (- (b - a + 1)) mod (b - a + 1))"

text \<open>The raw draws of the process-wide source, as \<^verbatim>\<open>rand\<close> reaches it: the static layer is
  constructed first when it has not been yet.\<close>

definition raw_draw :: "target \<Rightarrow> os \<Rightarrow> nat \<Rightarrow> proc \<Rightarrow> u32 result" where
  "raw_draw t w n s =
     (case static_layer t w s of
        Inl e \<Rightarrow> Inl e
      | Inr (l, s') \<Rightarrow> draws (RandomLayer_call w l) n s')"

text \<open>The process after some more calls, and the answer to the call number \<open>j\<close> made from a
  given process on.\<close>

definition after_calls :: "proc \<Rightarrow> call list \<Rightarrow> proc" where
  "after_calls s cs = s\<lparr>trace := trace s @ cs\<rparr>"

definition answer_at :: "os \<Rightarrow> proc \<Rightarrow> nat \<Rightarrow> reply" where
  "answer_at w s j = answers w (length (trace s) + j)"

text \<open>The flag of \<^verbatim>\<open><sys/random.h>\<close> that puts \<^verbatim>\<open>getrandom\<close> in non-blocking mode
  (\<^verbatim>\<open>#define GRND_NONBLOCK 0x0001\<close>; the header is the system's, the source includes it and
  names none of its flags). Without it the call blocks until the kernel's pool is initialised.\<close>

definition GRND_NONBLOCK :: u32 where
  "GRND_NONBLOCK = 1"

definition getrandom_nonblocking :: "u32 \<Rightarrow> bool" where
  "getrandom_nonblocking flags = (flags AND GRND_NONBLOCK \<noteq> 0)"

text \<open>Names for the messages of the source that carry \<^verbatim>\<open>errno\<close>.\<close>

definition getrandom_error :: "os \<Rightarrow> reply \<Rightarrow> fatal" where
  "getrandom_error w r =
     Fatal ''getrandom() error. Reason: %s. Error code: %d.''
       [ArgStr (strerror w (r_errno r)), ArgInt (r_errno r)]"

definition too_many_retries :: fatal where
  "too_many_retries = Fatal ''getrandom() failed. Reason: too many retries.'' []"

definition open_error :: "os \<Rightarrow> reply \<Rightarrow> fatal" where
  "open_error w r =
     Fatal ''Failed to open /dev/urandom. Reason: %s. Error code: %d.''
       [ArgStr (strerror w (r_errno r)), ArgInt (r_errno r)]"

definition read_error :: "os \<Rightarrow> reply \<Rightarrow> fatal" where
  "read_error w r =
     Fatal ''Read /dev/urandom error. Reason: %s. Error code: %d.''
       [ArgStr (strerror w (r_errno r)), ArgInt (r_errno r)]"

text \<open>When an answer is a failure of its call, as the source tests it; when an answer hands over
  a full buffer; and the fatal message the source has for a call that did not go through.
  A \<^verbatim>\<open>getrandom\<close> answer that is neither is a short read.\<close>

fun failure :: "call \<Rightarrow> reply \<Rightarrow> bool" where
  "failure (LoadWinAPI dll symb) r = (r_ret r = 0)"
| "failure (ProcessPrng p n) r = (r_ret r = 0)"
| "failure (Getrandom n fl) r = (r_ret r < 0)"
| "failure (Fopen pth md) r = (r_ret r = 0)"
| "failure (Fread sz nmemb f) r = (r_ret r \<noteq> int nmemb)"
| "failure (Fclose f) r = (r_ret r \<noteq> 0)"

fun delivered :: "call \<Rightarrow> reply \<Rightarrow> bool" where
  "delivered (ProcessPrng p n) r = (r_ret r \<noteq> 0)"
| "delivered (Getrandom n fl) r = (r_ret r = int n)"
| "delivered (Fread sz nmemb f) r = (r_ret r = int nmemb)"
| "delivered c r = False"

fun fatal_of :: "os \<Rightarrow> call \<Rightarrow> reply \<Rightarrow> fatal option" where
  "fatal_of w (LoadWinAPI dll symb) r = Some (Fatal ''Failed to load ProcessPrng().'' [])"
| "fatal_of w (ProcessPrng p n) r = Some (Fatal ''ProcessPrng() failed.'' [])"
| "fatal_of w (Getrandom n fl) r =
     Some (if r_ret r < 0 then getrandom_error w r else too_many_retries)"
| "fatal_of w (Fopen pth md) r = Some (open_error w r)"
| "fatal_of w (Fread sz nmemb f) r = Some (read_error w r)"
| "fatal_of w (Fclose f) r = None"

text \<open>No call of a list failed, the first call of the list being call number \<open>k\<close> of the
  process.\<close>

fun no_failure :: "os \<Rightarrow> nat \<Rightarrow> call list \<Rightarrow> bool" where
  "no_failure w k [] = True"
| "no_failure w k (c # cs) = (\<not> failure c (answers w k) \<and> no_failure w (Suc k) cs)"

text \<open>What every outcome of the source looks like: some calls were made, none but possibly the last
  failed, and the outcome is decided by the last call and its answer.\<close>

definition outcome_ok :: "os \<Rightarrow> proc \<Rightarrow> (u32 \<Rightarrow> 'a) \<Rightarrow> 'a result \<Rightarrow> bool" where
  "outcome_ok w s h out =
     (\<exists>cs. cs \<noteq> [] \<and> trace (state_of out) = trace s @ cs
        \<and> no_failure w (length (trace s)) (butlast cs)
        \<and> (case out of
             Inr (v, s') \<Rightarrow>
               delivered (last cs) (answers w (length (trace s') - 1))
               \<and> v = h (r_buf (answers w (length (trace s') - 1)))
           | Inl (f, s') \<Rightarrow>
               \<not> delivered (last cs) (answers w (length (trace s') - 1))
               \<and> Some f = fatal_of w (last cs) (answers w (length (trace s') - 1))))"

text \<open>The value an outcome returns, if it returns one.\<close>

definition value_of :: "'a result \<Rightarrow> 'a option" where
  "value_of r = (case r of Inl e \<Rightarrow> None | Inr (v, s) \<Rightarrow> Some v)"

definition returned :: "'a result option \<Rightarrow> 'a option" where
  "returned r = (case r of None \<Rightarrow> None | Some out \<Rightarrow> value_of out)"

section \<open>Concrete runs\<close>

text \<open>A process that has not called \<^verbatim>\<open>rand\<close> yet.\<close>

definition fresh :: proc where
  "fresh = \<lparr>trace = [], layer = None\<rparr>"

text \<open>An environment whose first call answers 2, the second 4 with the bytes of 7 in the
  buffer, and every later one \<open>- 1\<close> with \<^verbatim>\<open>errno\<close> 11.\<close>

definition demo_os :: os where
  "demo_os =
     \<lparr>answers = (\<lambda>n. if n = 0 then \<lparr>r_ret = 2, r_buf = 0, r_errno = 0\<rparr>
                    else if n = 1 then \<lparr>r_ret = 4, r_buf = 7, r_errno = 0\<rparr>
                    else \<lparr>r_ret = - 1, r_buf = 0, r_errno = 11\<rparr>),
      strerror = (\<lambda>e. if e = 11 then ''Resource temporarily unavailable'' else ''Success'')\<rparr>"

text \<open>An environment whose first two calls answer 1 with the bytes of 7 in the buffer and whose
  later calls answer 0 with \<^verbatim>\<open>errno\<close> 5; one whose calls all answer 1; one whose calls all
  answer 0 with \<^verbatim>\<open>errno\<close> 2.\<close>

definition once_os :: os where
  "once_os =
     \<lparr>answers = (\<lambda>n. if n < 2 then \<lparr>r_ret = 1, r_buf = 7, r_errno = 0\<rparr>
                    else \<lparr>r_ret = 0, r_buf = 0, r_errno = 5\<rparr>),
      strerror = (\<lambda>e. if e = 5 then ''Input/output error'' else ''Success'')\<rparr>"

definition steady_os :: os where
  "steady_os = \<lparr>answers = (\<lambda>n. \<lparr>r_ret = 1, r_buf = 7, r_errno = 0\<rparr>), strerror = (\<lambda>e. ''Success'')\<rparr>"

definition failing_os :: os where
  "failing_os =
     \<lparr>answers = (\<lambda>n. \<lparr>r_ret = 0, r_buf = 0, r_errno = 2\<rparr>),
      strerror = (\<lambda>e. ''No such file or directory'')\<rparr>"

section \<open>The distribution draws, then remaps the last draw\<close>

lemma S_nd_loop_sound:
  assumes "S_nd_loop g r t p s = Some out"
  shows "out = Inr (p, s) \<or> (\<exists>n. out = finish (\<lambda>x. ucast x * ucast r) (draws g n s))"
  using assms
proof (induction rule: S_nd_loop.raw_induct [rotated 1, consumes 1])
  case (1 loop g r t p s out)
  show ?case
  proof (cases "(ucast p :: u32) < t")
    case False
    with 1(2) show ?thesis by simp
  next
    case True
    show ?thesis
    proof (cases "g s")
      case (Inl e)
      with True 1(2) have "out = finish (\<lambda>x. ucast x * ucast r) (draws g 0 s)"
        by (simp add: finish_def)
      then show ?thesis by blast
    next
      case (Inr xs)
      obtain x s' where xs: "xs = (x, s')" by (cases xs)
      with True Inr 1(2) have rec: "loop g r t (ucast x * ucast r) s' = Some out"
        by simp
      from 1(1)[OF rec] show ?thesis
      proof
        assume "out = Inr (ucast x * ucast r, s')"
        with Inr xs have "out = finish (\<lambda>x. ucast x * ucast r) (draws g 0 s)"
          by (simp add: finish_def)
        then show ?thesis by blast
      next
        assume "\<exists>n. out = finish (\<lambda>x. ucast x * ucast r) (draws g n s')"
        then obtain n where "out = finish (\<lambda>x. ucast x * ucast r) (draws g n s')" ..
        with Inr xs have "out = finish (\<lambda>x. ucast x * ucast r) (draws g (Suc n) s)"
          by simp
        then show ?thesis by blast
      qed
    qed
  qed
qed

lemma finish_finish: "map_sum id (\<lambda>(p, s). (h p, s)) (finish f d) = finish (\<lambda>x. h (f x)) d"
  by (cases d) (auto simp: finish_def)

lemma S_nd_sound:
  "S_nd g r s = Some out \<Longrightarrow>
     \<exists>n. out = finish (\<lambda>x. ucast (drop_bit 32 (ucast x * ucast r :: u64))) (draws g n s)"
proof (cases "g s")
  case (Inl e)
  assume "S_nd g r s = Some out"
  moreover from Inl have "S_nd g r s = Some (Inl e)"
    by (simp add: S_nd_def)
  moreover from Inl
  have "finish (\<lambda>x. ucast (drop_bit 32 (ucast x * ucast r :: u64)) :: u32) (draws g 0 s) = Inl e"
    by (simp add: finish_def)
  ultimately
  have "out = finish (\<lambda>x. ucast (drop_bit 32 (ucast x * ucast r :: u64))) (draws g 0 s)"
    by simp
  then show ?thesis by blast
next
  case (Inr xs)
  assume a: "S_nd g r s = Some out"
  obtain x s' where xs: "xs = (x, s')" by (cases xs)
  let ?f = "\<lambda>x. ucast (drop_bit 32 (ucast x * ucast r :: u64)) :: u32"
  let ?m = "map_sum id (\<lambda>(p :: u64, s'' :: proc). (ucast (drop_bit 32 p) :: u32, s''))"
  have direct: "?m (Inr (ucast x * ucast r, s')) = finish ?f (draws g 0 s)"
    using Inr xs by (simp add: finish_def)
  show ?thesis
  proof (cases "(ucast (ucast x * ucast r :: u64) :: u32) < r")
    case False
    with a Inr xs have "out = ?m (Inr (ucast x * ucast r, s'))"
      by (simp add: S_nd_def)
    with direct show ?thesis by metis
  next
    case True
    with a Inr xs obtain o' where
      l: "S_nd_loop g r ((- r) mod r) (ucast x * ucast r) s' = Some o'" and o: "out = ?m o'"
      by (auto simp: S_nd_def)
    from S_nd_loop_sound[OF l] show ?thesis
    proof
      assume "o' = Inr (ucast x * ucast r, s')"
      with o direct show ?thesis by metis
    next
      assume "\<exists>n. o' = finish (\<lambda>x. ucast x * ucast r) (draws g n s')"
      then obtain n where "o' = finish (\<lambda>x. ucast x * ucast r) (draws g n s')" ..
      with o have "out = finish ?f (draws g n s')" by (simp add: finish_finish)
      with Inr xs have "out = finish ?f (draws g (Suc n) s)" by simp
      then show ?thesis by blast
    qed
  qed
qed

lemma uniform_int_distribution_sound:
  "uniform_int_distribution a b g s = Some out \<Longrightarrow>
     \<exists>n. out = finish (remap a b) (draws g n s)"
proof (cases "b - a = - 1")
  case True
  assume "uniform_int_distribution a b g s = Some out"
  with True have "out = finish (remap a b) (draws g 0 s)"
    by (cases "g s")
       (auto simp: uniform_int_distribution_def RandomLayer_max_def RandomLayer_min_def
          finish_def remap_def)
  then show ?thesis by blast
next
  case False
  assume a: "uniform_int_distribution a b g s = Some out"
  from False have "b - a < - 1" by (simp add: word_order.not_eq_extremum)
  with a obtain o' where n: "S_nd g (b - a + 1) s = Some o'"
    and o: "out = map_sum id (\<lambda>(r, s'). (r + a, s')) o'"
    by (auto simp: uniform_int_distribution_def RandomLayer_max_def RandomLayer_min_def)
  from S_nd_sound[OF n] obtain k where
    "o' = finish (\<lambda>x. ucast (drop_bit 32 (ucast x * ucast (b - a + 1) :: u64))) (draws g k s)" ..
  moreover from False
  have "remap a b = (\<lambda>x. ucast (drop_bit 32 (ucast x * ucast (b - a + 1) :: u64)) + a)"
    by (simp add: remap_def fun_eq_iff)
  ultimately have "out = finish (remap a b) (draws g k s)"
    using o by (simp add: finish_finish)
  then show ?thesis by blast
qed

section \<open>Arithmetic of the remapping\<close>

lemma unat_u32_less: "unat (x :: u32) < 2 ^ 32"
  using unsigned_less [of x, where 'a = nat] by simp

lemma unat_ucast_u64: "unat (ucast (x :: u32) :: u64) = unat x"
  using unat_u32_less [of x] by (simp add: unsigned_ucast_eq take_bit_nat_eq_self)

lemma word_full_range: "a \<le> b \<Longrightarrow> b - a = - 1 \<Longrightarrow> a = 0" for a b :: u32
  by (metis (no_types, lifting) add_cancel_right_left add_minus_cancel
    linorder_not_less order_le_imp_less_or_eq uminus_add_conv_diff
    word_order.extremum word_sub_less_iff)

lemma unat_wide_product:
  "unat (ucast (x :: u32) * ucast (r :: u32) :: u64) = unat x * unat r"
proof -
  have x: "unat (ucast x :: u64) = unat x" by (rule unat_ucast_u64)
  have r: "unat (ucast r :: u64) = unat r" by (rule unat_ucast_u64)
  have "unat x < 2 ^ 32" "unat r < 2 ^ 32" by (rule unat_u32_less)+
  then have "unat x * unat r < 2 ^ 32 * 2 ^ 32"
    by (intro mult_strict_mono) simp_all
  then have "unat (ucast x :: u64) * unat (ucast r :: u64) < 2 ^ LENGTH(64)"
    by (simp add: x r)
  then show ?thesis using x r by (simp add: unat_mult_lem [THEN iffD1])
qed

lemma unat_high_word:
  "unat (ucast (drop_bit 32 (ucast (x :: u32) * ucast (r :: u32) :: u64)) :: u32)
     = (unat x * unat r) div 2 ^ 32"
proof -
  have "unat x < 2 ^ 32" "unat r < 2 ^ 32" by (rule unat_u32_less)+
  then have "unat x * unat r < 2 ^ 32 * 2 ^ 32"
    by (intro mult_strict_mono) simp_all
  then have "(unat x * unat r) div 2 ^ 32 < 2 ^ 32"
    by (simp add: less_mult_imp_div_less)
  moreover have "unat (drop_bit 32 (ucast x * ucast r :: u64)) = (unat x * unat r) div 2 ^ 32"
    by (simp only: unat_drop_bit_eq unat_wide_product) (simp only: drop_bit_eq_div)
  moreover have "unat (ucast (drop_bit 32 (ucast x * ucast r :: u64)) :: u32)
      = take_bit 32 (unat (drop_bit 32 (ucast x * ucast r :: u64)))"
    by (simp only: unsigned_ucast_eq) simp
  ultimately show ?thesis
    by (simp only: take_bit_nat_eq_self)
qed

lemma high_word_less:
  assumes "r \<noteq> 0"
  shows "(ucast (drop_bit 32 (ucast (x :: u32) * ucast (r :: u32) :: u64)) :: u32) < r"
proof -
  have "unat x < 2 ^ 32" by (rule unat_u32_less)
  moreover from assms have "0 < unat r" by (simp add: unat_gt_0)
  ultimately have "unat x * unat r < 2 ^ 32 * unat r" by simp
  then have "(unat x * unat r) div 2 ^ 32 < unat r"
    by (simp add: less_mult_imp_div_less mult.commute)
  then show ?thesis by (simp add: word_less_nat_alt unat_high_word)
qed

lemma remap_in_range:
  assumes "a \<le> b"
  shows "a \<le> remap a b x \<and> remap a b x \<le> b"
proof (cases "b - a = - 1")
  case True
  with assms have "a = 0" by (rule word_full_range)
  with True have "b = - 1" by simp
  with \<open>a = 0\<close> True show ?thesis by (simp add: remap_def)
next
  case False
  let ?r = "b - a + 1"
  let ?h = "ucast (drop_bit 32 (ucast x * ucast ?r :: u64)) :: u32"
  from False have r0: "?r \<noteq> 0" by (metis add_eq_0_iff2 add_diff_cancel_left' diff_0 diff_add_cancel)
  from assms have ba: "unat (b - a) = unat b - unat a" by (simp add: unat_sub)
  from assms have le: "unat a \<le> unat b" by (simp add: word_le_nat_alt)
  have "unat b < 2 ^ 32" by (rule unat_u32_less)
  from False have "b - a < - 1" by (simp add: word_order.not_eq_extremum)
  then have "unat (b - a) < 2 ^ 32 - 1" by (simp add: word_less_nat_alt unsigned_minus_1_eq_mask mask_eq_exp_minus_1)
  then have r: "unat ?r = unat b - unat a + 1" using ba by (simp add: unat_word_ariths)
  from high_word_less[OF r0] have "unat ?h < unat ?r" by (simp add: word_less_nat_alt)
  with r have h: "unat ?h \<le> unat b - unat a" by simp
  with le \<open>unat b < 2 ^ 32\<close> have sum: "unat (?h + a) = unat ?h + unat a"
    by (simp add: unat_word_ariths)
  with h le have "unat a \<le> unat (?h + a)" "unat (?h + a) \<le> unat b" by simp_all
  with False show ?thesis by (simp add: remap_def word_le_nat_alt)
qed

lemma remap_same: "remap m m x = m"
proof -
  have "unat (ucast (drop_bit 32 (ucast x * ucast (1 :: u32) :: u64)) :: u32) = 0"
    using unat_u32_less[of x] by (simp only: unat_high_word) simp
  then have "(ucast (drop_bit 32 (ucast x * ucast (1 :: u32) :: u64)) :: u32) = 0"
    by (simp only: unat_eq_0)
  then show ?thesis by (simp add: remap_def)
qed

lemma remap_full: "remap 0 (- 1) x = x"
  by (simp add: remap_def)

section \<open>The range of rand\<close>

lemma S_nd_loop_returns:
  assumes "draws g n s = Inr (x, s')"
    and "\<not> (ucast (ucast x * ucast r :: u64) :: u32) < t"
  shows "\<exists>v s''. S_nd_loop g r t p s = Some (Inr (v, s''))"
  using assms
proof (induction n arbitrary: p s)
  case 0
  then show ?case
    by (cases "(ucast p :: u32) < t")
       (simp_all add: S_nd_loop.simps [of g r t p s] S_nd_loop.simps [of g r t "ucast x * ucast r" s'])
next
  case (Suc n)
  show ?case
  proof (cases "(ucast p :: u32) < t")
    case False
    then show ?thesis by (simp add: S_nd_loop.simps [of g r t p s])
  next
    case True
    from Suc.prems(1) obtain y s1 where g: "g s = Inr (y, s1)" and d: "draws g n s1 = Inr (x, s')"
      by (auto split: sum.splits)
    from Suc.IH [OF d Suc.prems(2)] obtain v s'' where
      "S_nd_loop g r t (ucast y * ucast r) s1 = Some (Inr (v, s''))" by blast
    with True g show ?thesis by (simp add: S_nd_loop.simps [of g r t p s])
  qed
qed

lemma S_nd_returns:
  assumes "draws g n s = Inr (x, s')"
    and "\<not> (ucast (ucast x * ucast r :: u64) :: u32) < (- r) mod r"
  shows "\<exists>v s''. S_nd g r s = Some (Inr (v, s''))"
proof -
  from assms(1) obtain y s1 where g: "g s = Inr (y, s1)"
    by (cases n; cases "g s") auto
  show ?thesis
  proof (cases "(ucast (ucast y * ucast r :: u64) :: u32) < r")
    case False
    with g show ?thesis by (simp add: S_nd_def)
  next
    case True
    have "\<exists>v s''. S_nd_loop g r ((- r) mod r) (ucast y * ucast r) s1 = Some (Inr (v, s''))"
    proof (cases n)
      case 0
      with assms g have "\<not> (ucast (ucast y * ucast r :: u64) :: u32) < (- r) mod r" by simp
      then show ?thesis by (simp add: S_nd_loop.simps [of g r _ "ucast y * ucast r" s1])
    next
      case (Suc m)
      with assms(1) g have "draws g m s1 = Inr (x, s')" by simp
      from S_nd_loop_returns [OF this assms(2)] show ?thesis .
    qed
    with True g show ?thesis by (auto simp: S_nd_def)
  qed
qed

lemma uniform_int_distribution_returns:
  assumes "draws g n s = Inr (x, s')" and "\<not> rejected a b x"
  shows "\<exists>v s''. uniform_int_distribution a b g s = Some (Inr (v, s''))"
proof (cases "b - a = - 1")
  case True
  from assms(1) obtain y s1 where "g s = Inr (y, s1)"
    by (cases n; cases "g s") auto
  with True show ?thesis
    by (simp add: uniform_int_distribution_def RandomLayer_max_def RandomLayer_min_def)
next
  case False
  then have lt: "b - a < - 1" by (simp add: word_order.not_eq_extremum)
  from False assms(2)
  have "\<not> (ucast (ucast x * ucast (b - a + 1) :: u64) :: u32) < (- (b - a + 1)) mod (b - a + 1)"
    by (simp add: rejected_def)
  from S_nd_returns [OF assms(1) this] obtain v s'' where
    "S_nd g (b - a + 1) s = Some (Inr (v, s''))" by blast
  with lt show ?thesis
    by (simp add: uniform_int_distribution_def RandomLayer_max_def RandomLayer_min_def)
qed

lemma uniform_int_distribution_value:
  assumes "uniform_int_distribution a b g s = Some (Inr (v, s'))"
  shows "\<exists>n x. draws g n s = Inr (x, s') \<and> v = remap a b x"
proof -
  from uniform_int_distribution_sound [OF assms] obtain n where
    n: "Inr (v, s') = finish (remap a b) (draws g n s)" ..
  then show ?thesis
    by (cases "draws g n s") (auto simp: finish_def)
qed

lemma rand_value:
  assumes "rand t w mn mx s = Some (Inr (v, s'))"
  shows "\<exists>n x. raw_draw t w n s = Inr (x, s') \<and> v = remap mn mx x"
proof (cases "static_layer t w s")
  case (Inl e)
  with assms show ?thesis by (simp add: rand_def)
next
  case (Inr ls)
  obtain l s1 where "ls = (l, s1)" by (cases ls)
  with Inr assms have "uniform_int_distribution mn mx (RandomLayer_call w l) s1 = Some (Inr (v, s'))"
    by (simp add: rand_def)
  from uniform_int_distribution_value [OF this] Inr \<open>ls = (l, s1)\<close>
  show ?thesis by (simp add: raw_draw_def)
qed

lemma rand_returns:
  assumes "raw_draw t w n s = Inr (x, s1)" and "\<not> rejected mn mx x"
  shows "\<exists>v s'. rand t w mn mx s = Some (Inr (v, s'))"
proof (cases "static_layer t w s")
  case (Inl e)
  with assms show ?thesis by (simp add: raw_draw_def)
next
  case (Inr ls)
  obtain l s2 where ls: "ls = (l, s2)" by (cases ls)
  with Inr assms(1) have "draws (RandomLayer_call w l) n s2 = Inr (x, s1)"
    by (simp add: raw_draw_def)
  from uniform_int_distribution_returns [OF this assms(2)] Inr ls
  show ?thesis by (simp add: rand_def)
qed

text \<open>
  Claim C1. For every pair \<open>mn \<le> mx\<close> of 32-bit unsigned integers, every value that
  \<^verbatim>\<open>rand(mn, mx)\<close> returns lies in the inclusive range: \<open>mn \<le> v \<le> mx\<close>. And the call does
  return a value as soon as one raw draw of the source arrives (no draw before it failed) that
  the distribution does not reject.
\<close>

theorem rand_in_range:
  assumes "mn \<le> mx"
  shows "(\<forall>v s'. rand t w mn mx s = Some (Inr (v, s')) \<longrightarrow> mn \<le> v \<and> v \<le> mx)
       \<and> (\<forall>n x s1. raw_draw t w n s = Inr (x, s1) \<and> \<not> rejected mn mx x
             \<longrightarrow> (\<exists>v s'. rand t w mn mx s = Some (Inr (v, s'))))"
proof (intro conjI allI impI)
  fix v s'
  assume "rand t w mn mx s = Some (Inr (v, s'))"
  from rand_value [OF this] obtain x where "v = remap mn mx x" by blast
  with remap_in_range [OF assms, of x] show "mn \<le> v" and "v \<le> mx" by simp_all
next
  fix n x s1
  assume "raw_draw t w n s = Inr (x, s1) \<and> \<not> rejected mn mx x"
  then show "\<exists>v s'. rand t w mn mx s = Some (Inr (v, s'))"
    using rand_returns by blast
qed

lemma S_nd_one:
  "S_nd g 1 s = Some (finish (\<lambda>_. 0) (g s))"
proof (cases "g s")
  case (Inl e)
  then show ?thesis by (simp add: S_nd_def finish_def)
next
  case (Inr xs)
  obtain x s' where xs: "xs = (x, s')" by (cases xs)
  have h: "(ucast (drop_bit 32 (ucast x * ucast (1 :: u32) :: u64)) :: u32) = 0"
    using remap_same [of 0 x] by (simp add: remap_def)
  have l: "S_nd_loop g 1 0 (ucast x) s' = Some (Inr (ucast x, s'))"
    by (simp add: S_nd_loop.simps [of g 1 0 "ucast x" s'])
  from Inr xs h l show ?thesis
    by (simp add: S_nd_def finish_def Let_def)
qed

lemma zero_less_max_u32: "(0 :: u32) < - 1"
  by (simp add: word_less_nat_alt unsigned_minus_1_eq_mask mask_eq_exp_minus_1)

lemma uniform_int_distribution_same:
  "uniform_int_distribution m m g s = Some (finish (\<lambda>_. m) (g s))"
  by (cases "g s")
     (auto simp: uniform_int_distribution_def RandomLayer_max_def RandomLayer_min_def S_nd_one
        finish_def zero_less_max_u32)

text \<open>
  Claim C3. For every 32-bit unsigned integer \<open>m\<close>, \<^verbatim>\<open>rand(m, m)\<close> returns nothing but \<open>m\<close>:
  every returned value is \<open>m\<close>, the call never runs forever, and when the one raw draw it
  makes succeeds it returns \<open>m\<close> in the process as that draw left it. In particular
  \<^verbatim>\<open>rand(0, 0)\<close> returns 0 and \<^verbatim>\<open>rand(5, 5)\<close> returns 5.
\<close>

theorem rand_same:
  "(\<forall>v s'. rand t w m m s = Some (Inr (v, s')) \<longrightarrow> v = m)
   \<and> rand t w m m s \<noteq> None
   \<and> (\<forall>x s1. raw_draw t w 0 s = Inr (x, s1) \<longrightarrow> rand t w m m s = Some (Inr (m, s1)))"
proof (cases "static_layer t w s")
  case (Inl e)
  then show ?thesis by (simp add: rand_def raw_draw_def)
next
  case (Inr ls)
  obtain l s2 where ls: "ls = (l, s2)" by (cases ls)
  with Inr have "rand t w m m s = Some (finish (\<lambda>_. m) (RandomLayer_call w l s2))"
    by (simp add: rand_def uniform_int_distribution_same)
  moreover from Inr ls have "raw_draw t w 0 s = RandomLayer_call w l s2"
    by (simp add: raw_draw_def)
  ultimately show ?thesis
    by (cases "RandomLayer_call w l s2") (auto simp: finish_def)
qed

text \<open>
  Claim C9. For the full range, \<^verbatim>\<open>rand(0, 2^32 - 1)\<close> makes exactly one raw draw and its
  outcome is the outcome of that draw: the same value, unchanged, in the same process, or the
  same fatal termination. No draw is rejected.
\<close>

theorem rand_full_range:
  "rand t w 0 (- 1) s = Some (raw_draw t w 0 s)"
proof (cases "static_layer t w s")
  case (Inl e)
  then show ?thesis by (simp add: rand_def raw_draw_def)
next
  case (Inr ls)
  obtain l s2 where ls: "ls = (l, s2)" by (cases ls)
  with Inr show ?thesis
    by (cases "RandomLayer_call w l s2")
       (auto simp: rand_def raw_draw_def uniform_int_distribution_def RandomLayer_max_def
          RandomLayer_min_def)
qed

section \<open>The calls of the three variants\<close>

lemma state_of_simps [simp]:
  "state_of (Inl (e, s)) = s" "state_of (Inr (v, s)) = s"
  by (simp_all add: state_of_def)

lemma state_of_finish [simp]: "state_of (finish f d) = state_of d"
  by (cases d) (auto simp: finish_def)

lemma after_calls_Nil [simp]: "after_calls s [] = s"
  by (simp add: after_calls_def)

lemma trace_after_calls [simp]: "trace (after_calls s cs) = trace s @ cs"
  by (simp add: after_calls_def)

lemma layer_after_calls [simp]: "layer (after_calls s cs) = layer s"
  by (simp add: after_calls_def)

lemma syscall_eq: "syscall w c s = (answer_at w s 0, after_calls s [c])"
  by (simp add: syscall_def answer_at_def after_calls_def)

lemma after_calls_after_calls: "after_calls (after_calls s xs) ys = after_calls s (xs @ ys)"
  by (simp add: after_calls_def)

lemma answer_at_after_calls: "answer_at w (after_calls s xs) j = answer_at w s (length xs + j)"
  by (simp add: answer_at_def after_calls_def add.assoc)

lemma draws_calls:
  assumes "\<And>s. \<exists>k. state_of (g s) = after_calls s (replicate k c)"
  shows "\<exists>k. state_of (draws g n s) = after_calls s (replicate k c)"
proof (induction n arbitrary: s)
  case 0
  from assms [of s] show ?case by simp
next
  case (Suc n)
  from assms [of s] obtain k where k: "state_of (g s) = after_calls s (replicate k c)" ..
  show ?case
  proof (cases "g s")
    case (Inl e)
    with k show ?thesis by auto
  next
    case (Inr xs)
    obtain x s' where xs: "xs = (x, s')" by (cases xs)
    with Inr k have s': "s' = after_calls s (replicate k c)" by simp
    from Suc.IH [of s'] obtain k' where "state_of (draws g n s') = after_calls s' (replicate k' c)" ..
    with s' Inr xs have "state_of (draws g (Suc n) s) = after_calls s (replicate (k + k') c)"
      by (simp add: after_calls_after_calls replicate_add)
    then show ?thesis ..
  qed
qed

lemma uniform_int_distribution_calls:
  assumes "\<And>s. \<exists>k. state_of (g s) = after_calls s (replicate k c)"
    and "uniform_int_distribution a b g s = Some out"
  shows "\<exists>k. state_of out = after_calls s (replicate k c)"
proof -
  from uniform_int_distribution_sound [OF assms(2)] obtain n where
    "out = finish (remap a b) (draws g n s)" ..
  with draws_calls [of g c n s, OF assms(1)] show ?thesis by simp
qed

lemma rand_constructed:
  "layer s = Some l \<Longrightarrow>
     rand t w mn mx s = uniform_int_distribution mn mx (RandomLayer_call w l) s"
  by (simp add: rand_def static_layer_def)

subsection \<open>Q_OS_LINUX\<close>

lemma linux_operator_unfold:
  "linux_operator w s =
     (let r0 = answer_at w s 0; r1 = answer_at w s 1; r2 = answer_at w s 2;
          c = Getrandom 4 0
      in if r_ret r0 = 4 then Inr (r_buf r0, after_calls s [c])
         else if r_ret r0 < 0 then Inl (getrandom_error w r0, after_calls s [c])
         else if r_ret r1 = 4 then Inr (r_buf r1, after_calls s [c, c])
         else if r_ret r1 < 0 then Inl (getrandom_error w r1, after_calls s [c, c])
         else if r_ret r2 = 4 then Inr (r_buf r2, after_calls s [c, c, c])
         else if r_ret r2 < 0 then Inl (getrandom_error w r2, after_calls s [c, c, c])
         else Inl (too_many_retries, after_calls s [c, c, c]))"
  by (simp add: linux_operator_def getrandom_loop.simps [of w 0] getrandom_loop.simps [of w 1]
        getrandom_loop.simps [of w 2] getrandom_loop.simps [of w 3] RETRY_MAX_def syscall_eq
        after_calls_after_calls answer_at_after_calls getrandom_error_def too_many_retries_def
        Let_def eval_nat_numeral)

text \<open>
  Claim C2, as amended. On Linux every draw calls \<^verbatim>\<open>getrandom\<close> for exactly 4 bytes with flags 0,
  between one and three times. Flags 0 do not contain \<^verbatim>\<open>GRND_NONBLOCK\<close>: the call is the default,
  blocking one, not a non-blocking one. Every attempt before the last answered a non-negative
  count other than 4 (a short read, which is retried). The last attempt decides: 4 bytes return
  the buffer; a negative answer terminates the process at once with the message that carries
  \<^verbatim>\<open>strerror(errno)\<close> and \<^verbatim>\<open>errno\<close>; anything else happens only on the third attempt and
  terminates the process with "too many retries".
\<close>

theorem linux_operator_attempts:
  "\<exists>n. 1 \<le> n \<and> n \<le> 3
      \<and> state_of (linux_operator w s) = after_calls s (replicate n (Getrandom 4 0))
      \<and> \<not> getrandom_nonblocking 0
      \<and> (\<forall>j. Suc j < n \<longrightarrow> 0 \<le> r_ret (answer_at w s j) \<and> r_ret (answer_at w s j) \<noteq> 4)
      \<and> (let r = answer_at w s (n - 1); s' = after_calls s (replicate n (Getrandom 4 0))
         in if r_ret r = 4 then linux_operator w s = Inr (r_buf r, s')
            else if r_ret r < 0 then linux_operator w s = Inl (getrandom_error w r, s')
            else n = 3 \<and> linux_operator w s = Inl (too_many_retries, s'))"
proof -
  let ?r = "\<lambda>j. r_ret (answer_at w s j)"
  have nb: "\<not> getrandom_nonblocking 0" by (simp add: getrandom_nonblocking_def)
  consider (one) "?r 0 = 4 \<or> ?r 0 < 0"
    | (two) "\<not> (?r 0 = 4 \<or> ?r 0 < 0)" "?r 1 = 4 \<or> ?r 1 < 0"
    | (three) "\<not> (?r 0 = 4 \<or> ?r 0 < 0)" "\<not> (?r 1 = 4 \<or> ?r 1 < 0)"
    by blast
  then show ?thesis
  proof cases
    case one
    then show ?thesis
      by (intro exI [of _ 1]) (auto simp: linux_operator_unfold state_of_def nb Let_def eval_nat_numeral)
  next
    case two
    then show ?thesis
      by (intro exI [of _ 2])
         (auto simp: linux_operator_unfold state_of_def nb Let_def less_Suc_eq eval_nat_numeral)
  next
    case three
    then show ?thesis
      by (intro exI [of _ 3])
         (auto simp: linux_operator_unfold state_of_def nb Let_def less_Suc_eq eval_nat_numeral)
  qed
qed

subsection \<open>The fallback\<close>

lemma posix_RandomLayer_eq:
  "posix_RandomLayer w s =
     (if r_ret (answer_at w s 0) = 0
      then Inl (open_error w (answer_at w s 0), after_calls s [Fopen ''/dev/urandom'' ''rb''])
      else Inr (PosixLayer (r_ret (answer_at w s 0)), after_calls s [Fopen ''/dev/urandom'' ''rb'']))"
  by (simp add: posix_RandomLayer_def syscall_eq open_error_def)

lemma posix_operator_eq:
  "posix_operator w f s =
     (if r_ret (answer_at w s 0) \<noteq> 1
      then Inl (read_error w (answer_at w s 0), after_calls s [Fread 4 1 f])
      else Inr (r_buf (answer_at w s 0), after_calls s [Fread 4 1 f]))"
  by (simp add: posix_operator_def syscall_eq read_error_def)

lemma posix_operator_calls:
  "\<exists>k. state_of (RandomLayer_call w (PosixLayer f) s) = after_calls s (replicate k (Fread 4 1 f))"
  by (rule exI [of _ 1]) (simp add: RandomLayer_call_def posix_operator_eq)

lemma posix_rand_later:
  assumes "layer s = Some (PosixLayer f)" and "rand t w mn mx s = Some out"
  shows "\<exists>k. state_of out = after_calls s (replicate k (Fread 4 1 f))"
  using assms uniform_int_distribution_calls [of "RandomLayer_call w (PosixLayer f)", OF posix_operator_calls]
  by (simp add: rand_constructed)

lemma posix_static_layer:
  assumes "layer s = None"
  shows "static_layer Q_OS_OTHER w s =
     (if r_ret (answer_at w s 0) = 0
      then Inl (open_error w (answer_at w s 0), after_calls s [Fopen ''/dev/urandom'' ''rb''])
      else Inr (PosixLayer (r_ret (answer_at w s 0)),
             (after_calls s [Fopen ''/dev/urandom'' ''rb''])
               \<lparr>layer := Some (PosixLayer (r_ret (answer_at w s 0)))\<rparr>))"
  using assms by (simp add: static_layer_def RandomLayer_ctor_def posix_RandomLayer_eq)

lemma posix_rand_first:
  assumes "layer s = None" and "rand Q_OS_OTHER w mn mx s = Some out"
  shows "(\<exists>k. trace (state_of out) =
            trace s @ Fopen ''/dev/urandom'' ''rb'' # replicate k (Fread 4 1 (r_ret (answer_at w s 0))))
       \<and> (\<forall>v s'. out = Inr (v, s') \<longrightarrow> layer s' = Some (PosixLayer (r_ret (answer_at w s 0))))"
proof (cases "r_ret (answer_at w s 0) = 0")
  case True
  with assms have "out = Inl (open_error w (answer_at w s 0), after_calls s [Fopen ''/dev/urandom'' ''rb''])"
    by (simp add: rand_def posix_static_layer)
  then have "trace (state_of out) =
      trace s @ Fopen ''/dev/urandom'' ''rb'' # replicate 0 (Fread 4 1 (r_ret (answer_at w s 0)))"
    and "\<forall>v s'. out \<noteq> Inr (v, s')"
    by simp_all
  then show ?thesis by blast
next
  case False
  let ?f = "r_ret (answer_at w s 0)"
  let ?s = "(after_calls s [Fopen ''/dev/urandom'' ''rb''])\<lparr>layer := Some (PosixLayer ?f)\<rparr>"
  from False assms
  have "uniform_int_distribution mn mx (RandomLayer_call w (PosixLayer ?f)) ?s = Some out"
    by (simp add: rand_def posix_static_layer)
  from uniform_int_distribution_calls [of "RandomLayer_call w (PosixLayer ?f)", OF posix_operator_calls this]
  obtain k where "state_of out = after_calls ?s (replicate k (Fread 4 1 ?f))" ..
  then have "trace (state_of out) = trace s @ Fopen ''/dev/urandom'' ''rb'' # replicate k (Fread 4 1 ?f)"
    and "layer (state_of out) = Some (PosixLayer ?f)"
    by (simp_all add: after_calls_def)
  then show ?thesis by auto
qed

text \<open>
  Claim C4. On the fallback target the constructor makes one call, \<^verbatim>\<open>fopen("/dev/urandom", "rb")\<close>;
  a null answer terminates the process with the message that carries \<^verbatim>\<open>strerror(errno)\<close> and
  \<^verbatim>\<open>errno\<close>, any other answer is kept as the handle. Every draw makes one call, \<^verbatim>\<open>fread\<close> of one
  item of 4 bytes from the handle; an answer other than 1 (a short or failed read) terminates the
  process with the message that carries \<^verbatim>\<open>strerror(errno)\<close> and \<^verbatim>\<open>errno\<close>, the answer 1 returns
  the buffer. A first \<^verbatim>\<open>rand\<close> opens the device once and then only reads from the handle it got;
  when it returns, the layer is constructed, and a later \<^verbatim>\<open>rand\<close> only reads from that handle
  and opens nothing. At process exit the handle of a constructed layer is closed.
\<close>

theorem posix_layer:
  "trace (state_of (posix_RandomLayer w s)) = trace s @ [Fopen ''/dev/urandom'' ''rb'']
   \<and> (r_ret (answer_at w s 0) = 0 \<longrightarrow>
        posix_RandomLayer w s =
          Inl (Fatal ''Failed to open /dev/urandom. Reason: %s. Error code: %d.''
                 [ArgStr (strerror w (r_errno (answer_at w s 0))), ArgInt (r_errno (answer_at w s 0))],
               after_calls s [Fopen ''/dev/urandom'' ''rb'']))
   \<and> (r_ret (answer_at w s 0) \<noteq> 0 \<longrightarrow>
        posix_RandomLayer w s =
          Inr (PosixLayer (r_ret (answer_at w s 0)), after_calls s [Fopen ''/dev/urandom'' ''rb'']))
   \<and> state_of (posix_operator w f s) = after_calls s [Fread 4 1 f]
   \<and> (r_ret (answer_at w s 0) \<noteq> 1 \<longrightarrow>
        posix_operator w f s =
          Inl (Fatal ''Read /dev/urandom error. Reason: %s. Error code: %d.''
                 [ArgStr (strerror w (r_errno (answer_at w s 0))), ArgInt (r_errno (answer_at w s 0))],
               after_calls s [Fread 4 1 f]))
   \<and> (r_ret (answer_at w s 0) = 1 \<longrightarrow>
        posix_operator w f s = Inr (r_buf (answer_at w s 0), after_calls s [Fread 4 1 f]))
   \<and> (layer s = None \<and> rand Q_OS_OTHER w mn mx s = Some out \<longrightarrow>
        (\<exists>k. trace (state_of out) =
            trace s @ Fopen ''/dev/urandom'' ''rb'' # replicate k (Fread 4 1 (r_ret (answer_at w s 0))))
        \<and> (\<forall>v s'. out = Inr (v, s') \<longrightarrow> layer s' = Some (PosixLayer (r_ret (answer_at w s 0)))))
   \<and> (layer s = Some (PosixLayer f) \<and> rand Q_OS_OTHER w mn mx s = Some out \<longrightarrow>
        (\<exists>k. state_of out = after_calls s (replicate k (Fread 4 1 f))))
   \<and> (layer s = Some (PosixLayer f) \<longrightarrow> at_exit w s = after_calls s [Fclose f])"
proof (intro conjI)
  show "layer s = Some (PosixLayer f) \<longrightarrow> at_exit w s = after_calls s [Fclose f]"
    by (simp add: at_exit_def RandomLayer_dtor_def posix_destructor_def syscall_eq)
  show "layer s = None \<and> rand Q_OS_OTHER w mn mx s = Some out \<longrightarrow>
        (\<exists>k. trace (state_of out) =
            trace s @ Fopen ''/dev/urandom'' ''rb'' # replicate k (Fread 4 1 (r_ret (answer_at w s 0))))
        \<and> (\<forall>v s'. out = Inr (v, s') \<longrightarrow> layer s' = Some (PosixLayer (r_ret (answer_at w s 0))))"
    using posix_rand_first [of s w mn mx out] by blast
  show "layer s = Some (PosixLayer f) \<and> rand Q_OS_OTHER w mn mx s = Some out \<longrightarrow>
        (\<exists>k. state_of out = after_calls s (replicate k (Fread 4 1 f)))"
    using posix_rand_later [of s f Q_OS_OTHER w mn mx out] by blast
qed (simp_all add: posix_RandomLayer_eq posix_operator_eq open_error_def read_error_def)

subsection \<open>Q_OS_WIN\<close>

lemma win_RandomLayer_eq:
  "win_RandomLayer w s =
     (if r_ret (answer_at w s 0) = 0
      then Inl (Fatal ''Failed to load ProcessPrng().'' [],
             after_calls s [LoadWinAPI ''BCryptPrimitives.dll'' ''ProcessPrng''])
      else Inr (WinLayer (r_ret (answer_at w s 0)),
             after_calls s [LoadWinAPI ''BCryptPrimitives.dll'' ''ProcessPrng'']))"
  by (simp add: win_RandomLayer_def syscall_eq)

lemma win_operator_eq:
  "win_operator w p s =
     (if r_ret (answer_at w s 0) = 0
      then Inl (Fatal ''ProcessPrng() failed.'' [], after_calls s [ProcessPrng p 4])
      else Inr (r_buf (answer_at w s 0), after_calls s [ProcessPrng p 4]))"
  by (simp add: win_operator_def syscall_eq)

lemma win_operator_calls:
  "\<exists>k. state_of (RandomLayer_call w (WinLayer p) s) = after_calls s (replicate k (ProcessPrng p 4))"
  by (rule exI [of _ 1]) (simp add: RandomLayer_call_def win_operator_eq)

lemma win_rand_later:
  assumes "layer s = Some (WinLayer p)" and "rand t w mn mx s = Some out"
  shows "\<exists>k. state_of out = after_calls s (replicate k (ProcessPrng p 4))"
  using assms uniform_int_distribution_calls [of "RandomLayer_call w (WinLayer p)", OF win_operator_calls]
  by (simp add: rand_constructed)

lemma win_static_layer:
  assumes "layer s = None"
  shows "static_layer Q_OS_WIN w s =
     (if r_ret (answer_at w s 0) = 0
      then Inl (Fatal ''Failed to load ProcessPrng().'' [],
             after_calls s [LoadWinAPI ''BCryptPrimitives.dll'' ''ProcessPrng''])
      else Inr (WinLayer (r_ret (answer_at w s 0)),
             (after_calls s [LoadWinAPI ''BCryptPrimitives.dll'' ''ProcessPrng''])
               \<lparr>layer := Some (WinLayer (r_ret (answer_at w s 0)))\<rparr>))"
  using assms by (simp add: static_layer_def RandomLayer_ctor_def win_RandomLayer_eq)

lemma win_rand_first:
  assumes "layer s = None" and "rand Q_OS_WIN w mn mx s = Some out"
  shows "(\<exists>k. trace (state_of out) =
            trace s @ LoadWinAPI ''BCryptPrimitives.dll'' ''ProcessPrng''
              # replicate k (ProcessPrng (r_ret (answer_at w s 0)) 4))
       \<and> (\<forall>v s'. out = Inr (v, s') \<longrightarrow> layer s' = Some (WinLayer (r_ret (answer_at w s 0))))"
proof (cases "r_ret (answer_at w s 0) = 0")
  case True
  with assms have "out = Inl (Fatal ''Failed to load ProcessPrng().'' [],
      after_calls s [LoadWinAPI ''BCryptPrimitives.dll'' ''ProcessPrng''])"
    by (simp add: rand_def win_static_layer)
  then have "trace (state_of out) =
      trace s @ LoadWinAPI ''BCryptPrimitives.dll'' ''ProcessPrng''
        # replicate 0 (ProcessPrng (r_ret (answer_at w s 0)) 4)"
    and "\<forall>v s'. out \<noteq> Inr (v, s')"
    by simp_all
  then show ?thesis by blast
next
  case False
  let ?p = "r_ret (answer_at w s 0)"
  let ?s = "(after_calls s [LoadWinAPI ''BCryptPrimitives.dll'' ''ProcessPrng''])\<lparr>layer := Some (WinLayer ?p)\<rparr>"
  from False assms
  have "uniform_int_distribution mn mx (RandomLayer_call w (WinLayer ?p)) ?s = Some out"
    by (simp add: rand_def win_static_layer)
  from uniform_int_distribution_calls [of "RandomLayer_call w (WinLayer ?p)", OF win_operator_calls this]
  obtain k where "state_of out = after_calls ?s (replicate k (ProcessPrng ?p 4))" ..
  then have "trace (state_of out) =
      trace s @ LoadWinAPI ''BCryptPrimitives.dll'' ''ProcessPrng'' # replicate k (ProcessPrng ?p 4)"
    and "layer (state_of out) = Some (WinLayer ?p)"
    by (simp_all add: after_calls_def)
  then show ?thesis by auto
qed

text \<open>
  Claim C5. On Windows the constructor makes one call, the lookup of \<^verbatim>\<open>ProcessPrng\<close> in
  \<^verbatim>\<open>BCryptPrimitives.dll\<close>; a null answer terminates the process with a diagnostic message, any
  other answer is kept as the function pointer. Every draw calls that pointer once for a buffer of
  4 bytes; the answer \<^verbatim>\<open>FALSE\<close> terminates the process, with no second call, and any other
  answer returns the buffer. A first \<^verbatim>\<open>rand\<close> resolves the symbol once and then only calls the
  pointer it got; a later \<^verbatim>\<open>rand\<close> only calls that pointer.
\<close>

theorem win_layer:
  "trace (state_of (win_RandomLayer w s)) =
     trace s @ [LoadWinAPI ''BCryptPrimitives.dll'' ''ProcessPrng'']
   \<and> (r_ret (answer_at w s 0) = 0 \<longrightarrow>
        win_RandomLayer w s =
          Inl (Fatal ''Failed to load ProcessPrng().'' [],
               after_calls s [LoadWinAPI ''BCryptPrimitives.dll'' ''ProcessPrng'']))
   \<and> (r_ret (answer_at w s 0) \<noteq> 0 \<longrightarrow>
        win_RandomLayer w s =
          Inr (WinLayer (r_ret (answer_at w s 0)),
               after_calls s [LoadWinAPI ''BCryptPrimitives.dll'' ''ProcessPrng'']))
   \<and> state_of (win_operator w p s) = after_calls s [ProcessPrng p 4]
   \<and> (r_ret (answer_at w s 0) = 0 \<longrightarrow>
        win_operator w p s =
          Inl (Fatal ''ProcessPrng() failed.'' [], after_calls s [ProcessPrng p 4]))
   \<and> (r_ret (answer_at w s 0) \<noteq> 0 \<longrightarrow>
        win_operator w p s = Inr (r_buf (answer_at w s 0), after_calls s [ProcessPrng p 4]))
   \<and> (layer s = None \<and> rand Q_OS_WIN w mn mx s = Some out \<longrightarrow>
        (\<exists>k. trace (state_of out) =
            trace s @ LoadWinAPI ''BCryptPrimitives.dll'' ''ProcessPrng''
              # replicate k (ProcessPrng (r_ret (answer_at w s 0)) 4))
        \<and> (\<forall>v s'. out = Inr (v, s') \<longrightarrow> layer s' = Some (WinLayer (r_ret (answer_at w s 0)))))
   \<and> (layer s = Some (WinLayer p) \<and> rand Q_OS_WIN w mn mx s = Some out \<longrightarrow>
        (\<exists>k. state_of out = after_calls s (replicate k (ProcessPrng p 4))))"
proof (intro conjI)
  show "layer s = None \<and> rand Q_OS_WIN w mn mx s = Some out \<longrightarrow>
        (\<exists>k. trace (state_of out) =
            trace s @ LoadWinAPI ''BCryptPrimitives.dll'' ''ProcessPrng''
              # replicate k (ProcessPrng (r_ret (answer_at w s 0)) 4))
        \<and> (\<forall>v s'. out = Inr (v, s') \<longrightarrow> layer s' = Some (WinLayer (r_ret (answer_at w s 0))))"
    using win_rand_first [of s w mn mx out] by blast
  show "layer s = Some (WinLayer p) \<and> rand Q_OS_WIN w mn mx s = Some out \<longrightarrow>
        (\<exists>k. state_of out = after_calls s (replicate k (ProcessPrng p 4)))"
    using win_rand_later [of s p Q_OS_WIN w mn mx out] by blast
qed (simp_all add: win_RandomLayer_eq win_operator_eq)

section \<open>Failures end the process\<close>

lemma no_failure_append:
  "no_failure w k (xs @ ys) = (no_failure w k xs \<and> no_failure w (k + length xs) ys)"
  by (induction xs arbitrary: k) auto

lemma delivered_not_failure: "delivered c r \<Longrightarrow> \<not> failure c r"
  by (cases c) auto

lemma no_failure_butlast:
  assumes "cs \<noteq> []" and "no_failure w k (butlast cs)"
    and "\<not> failure (last cs) (answers w (k + length cs - 1))"
  shows "no_failure w k cs"
proof -
  from assms(1) have "k + length cs - 1 = k + length (butlast cs)"
    by (cases cs) simp_all
  with assms no_failure_append [of w k "butlast cs" "[last cs]"] show ?thesis by simp
qed

lemma outcome_ok_prepend:
  assumes "trace s1 = trace s @ cs1" and "no_failure w (length (trace s)) cs1"
    and "outcome_ok w s1 h out"
  shows "outcome_ok w s h out"
proof -
  from assms(3) obtain cs where cs: "cs \<noteq> []" "trace (state_of out) = trace s1 @ cs"
    "no_failure w (length (trace s1)) (butlast cs)"
    and c: "case out of
             Inr (v, s') \<Rightarrow>
               delivered (last cs) (answers w (length (trace s') - 1))
               \<and> v = h (r_buf (answers w (length (trace s') - 1)))
           | Inl (f, s') \<Rightarrow>
               \<not> delivered (last cs) (answers w (length (trace s') - 1))
               \<and> Some f = fatal_of w (last cs) (answers w (length (trace s') - 1))"
    unfolding outcome_ok_def by blast
  from cs assms(1,2) have "cs1 @ cs \<noteq> []" "trace (state_of out) = trace s @ (cs1 @ cs)"
    "no_failure w (length (trace s)) (butlast (cs1 @ cs))"
    by (simp_all add: butlast_append no_failure_append)
  moreover from cs(1) have "last (cs1 @ cs) = last cs" by simp
  ultimately show ?thesis using c unfolding outcome_ok_def
    by (intro exI [of _ "cs1 @ cs"]) (simp only: simp_thms)
qed

lemma outcome_ok_finish:
  "outcome_ok w s id d \<Longrightarrow> outcome_ok w s h (finish h d)"
  by (cases d) (auto simp: outcome_ok_def finish_def)

lemma outcome_ok_one:
  assumes "state_of out = after_calls s [c]"
    and "case out of Inr (v, s') \<Rightarrow> delivered c (answer_at w s 0) \<and> v = r_buf (answer_at w s 0)
          | Inl (f, s') \<Rightarrow> \<not> delivered c (answer_at w s 0) \<and> Some f = fatal_of w c (answer_at w s 0)"
  shows "outcome_ok w s id out"
  using assms unfolding outcome_ok_def
  by (intro exI [of _ "[c]"]) (cases out; auto simp: answer_at_def)

lemma win_operator_ok: "outcome_ok w s id (win_operator w p s)"
  by (rule outcome_ok_one [of _ _ "ProcessPrng p 4"]) (simp_all add: win_operator_eq)

lemma posix_operator_ok: "outcome_ok w s id (posix_operator w f s)"
  by (rule outcome_ok_one [of _ _ "Fread 4 1 f"]) (simp_all add: posix_operator_eq)

lemma linux_operator_ok: "outcome_ok w s id (linux_operator w s)"
proof -
  let ?c = "Getrandom 4 0"
  let ?r = "\<lambda>j. r_ret (answer_at w s j)"
  have one: "outcome_ok w s id (linux_operator w s)" if "?r 0 = 4 \<or> ?r 0 < 0"
    using that
    by (intro outcome_ok_one [of _ _ ?c]) (auto simp: linux_operator_unfold Let_def)
  have two: "outcome_ok w s id (linux_operator w s)"
    if "\<not> (?r 0 = 4 \<or> ?r 0 < 0)" "?r 1 = 4 \<or> ?r 1 < 0"
  proof (rule outcome_ok_prepend [of "after_calls s [?c]" s "[?c]"])
    show "outcome_ok w (after_calls s [?c]) id (linux_operator w s)"
      using that
      by (intro outcome_ok_one [of _ _ ?c])
         (auto simp: linux_operator_unfold Let_def after_calls_after_calls answer_at_after_calls)
    show "no_failure w (length (trace s)) [?c]"
      using that by (simp add: answer_at_def)
  qed simp
  have three: "outcome_ok w s id (linux_operator w s)"
    if "\<not> (?r 0 = 4 \<or> ?r 0 < 0)" "\<not> (?r 1 = 4 \<or> ?r 1 < 0)"
  proof (rule outcome_ok_prepend [of "after_calls s [?c, ?c]" s "[?c, ?c]"])
    show "outcome_ok w (after_calls s [?c, ?c]) id (linux_operator w s)"
      using that
      by (intro outcome_ok_one [of _ _ ?c])
         (auto simp: linux_operator_unfold Let_def after_calls_after_calls answer_at_after_calls
            too_many_retries_def eval_nat_numeral)
    show "no_failure w (length (trace s)) [?c, ?c]"
      using that by (simp add: answer_at_def)
  qed simp
  from one two three show ?thesis by blast
qed

lemma RandomLayer_call_ok: "outcome_ok w s id (RandomLayer_call w l s)"
  by (cases l) (simp_all add: RandomLayer_call_def win_operator_ok linux_operator_ok posix_operator_ok)

lemma outcome_ok_Inr:
  assumes "outcome_ok w s h (Inr (v, s'))"
  shows "\<exists>cs. trace s' = trace s @ cs \<and> no_failure w (length (trace s)) cs"
proof -
  from assms obtain cs where cs: "cs \<noteq> []" "trace s' = trace s @ cs"
    "no_failure w (length (trace s)) (butlast cs)"
    "delivered (last cs) (answers w (length (trace s') - 1))"
    unfolding outcome_ok_def by auto
  from cs(1,2) have "length (trace s') - 1 = length (trace s) + length cs - 1" by simp
  with cs(4) have "\<not> failure (last cs) (answers w (length (trace s) + length cs - 1))"
    by (simp add: delivered_not_failure)
  from no_failure_butlast [OF cs(1) cs(3) this] cs(2) show ?thesis by blast
qed

lemma draws_ok:
  assumes "\<And>s. outcome_ok w s id (g s)"
  shows "outcome_ok w s id (draws g n s)"
proof (induction n arbitrary: s)
  case 0
  from assms [of s] show ?case by (simp only: draws.simps)
next
  case (Suc n)
  show ?case
  proof (cases "g s")
    case (Inl e)
    with assms [of s] show ?thesis by (simp only: draws.simps sum.case)
  next
    case (Inr xs)
    obtain x s1 where xs: "xs = (x, s1)" by (cases xs)
    with Inr assms [of s] have "outcome_ok w s id (Inr (x, s1))" by (simp only:)
    from outcome_ok_Inr [OF this] obtain cs where
      "trace s1 = trace s @ cs" "no_failure w (length (trace s)) cs" by blast
    from outcome_ok_prepend [OF this Suc.IH [of s1]] Inr xs show ?thesis
      by (simp only: draws.simps sum.case prod.case)
  qed
qed

lemma uniform_int_distribution_ok:
  assumes "uniform_int_distribution a b (RandomLayer_call w l) s = Some out"
  shows "outcome_ok w s (remap a b) out"
proof -
  from uniform_int_distribution_sound [OF assms] obtain n where
    "out = finish (remap a b) (draws (RandomLayer_call w l) n s)" ..
  with draws_ok [of w "RandomLayer_call w l" s n, OF RandomLayer_call_ok]
  show ?thesis by (simp add: outcome_ok_finish)
qed

lemma static_layer_ok:
  "case static_layer t w s of
     Inl (f, s') \<Rightarrow> outcome_ok w s h (Inl (f, s'))
   | Inr (l, s') \<Rightarrow> \<exists>cs. trace s' = trace s @ cs \<and> no_failure w (length (trace s)) cs"
proof (cases "layer s")
  case (Some l)
  then show ?thesis by (simp add: static_layer_def)
next
  case None
  show ?thesis
  proof (cases t)
    case Q_OS_WIN
    with None show ?thesis
      by (auto simp: static_layer_def RandomLayer_ctor_def win_RandomLayer_eq outcome_ok_def
            answer_at_def
          intro!: exI [of _ "[LoadWinAPI ''BCryptPrimitives.dll'' ''ProcessPrng'']"])
  next
    case Q_OS_LINUX
    with None show ?thesis
      by (simp add: static_layer_def RandomLayer_ctor_def linux_RandomLayer_def)
  next
    case Q_OS_OTHER
    with None show ?thesis
      by (auto simp: static_layer_def RandomLayer_ctor_def posix_RandomLayer_eq outcome_ok_def
            answer_at_def
          intro!: exI [of _ "[Fopen ''/dev/urandom'' ''rb'']"])
  qed
qed

lemma rand_ok:
  assumes "rand t w mn mx s = Some out"
  shows "outcome_ok w s (remap mn mx) out"
proof (cases "static_layer t w s")
  case (Inl e)
  obtain f s' where e: "e = (f, s')" by (cases e)
  with Inl static_layer_ok [where t = t and w = w and s = s and h = "remap mn mx"] assms
  show ?thesis
    by (simp add: rand_def)
next
  case (Inr ls)
  obtain l s1 where ls: "ls = (l, s1)" by (cases ls)
  with Inr static_layer_ok [where t = t and w = w and s = s] obtain cs where
    cs: "trace s1 = trace s @ cs" "no_failure w (length (trace s)) cs" by auto
  from Inr ls assms have "uniform_int_distribution mn mx (RandomLayer_call w l) s1 = Some out"
    by (simp add: rand_def)
  from outcome_ok_prepend [OF cs uniform_int_distribution_ok [OF this]] show ?thesis .
qed

text \<open>
  Claim C6. Whenever \<^verbatim>\<open>rand\<close> comes to an end it has made at least one outside call, and no call
  but possibly the last one failed: a failed call is never followed by another call. When \<^verbatim>\<open>rand\<close>
  returns a value, no call at all failed, the last call handed over a full buffer, and the value
  is the remapping of exactly that buffer. Otherwise the process was terminated by \<^verbatim>\<open>qFatal\<close>,
  the last call did not hand over a buffer, and the message is the one the source has for that
  call and its answer (with \<^verbatim>\<open>strerror(errno)\<close> and \<^verbatim>\<open>errno\<close> where the source passes them).
  There is no third kind of outcome: no error value comes back to the caller.
\<close>

theorem rand_fatal_or_value:
  assumes "rand t w mn mx s = Some out"
  shows "\<exists>cs. cs \<noteq> [] \<and> trace (state_of out) = trace s @ cs
      \<and> no_failure w (length (trace s)) (butlast cs)
      \<and> (case out of
           Inr (v, s') \<Rightarrow>
             no_failure w (length (trace s)) cs
             \<and> delivered (last cs) (answers w (length (trace s') - 1))
             \<and> v = remap mn mx (r_buf (answers w (length (trace s') - 1)))
         | Inl (f, s') \<Rightarrow>
             \<not> delivered (last cs) (answers w (length (trace s') - 1))
             \<and> Some f = fatal_of w (last cs) (answers w (length (trace s') - 1)))"
proof -
  from rand_ok [OF assms] obtain cs where cs: "cs \<noteq> []" "trace (state_of out) = trace s @ cs"
    "no_failure w (length (trace s)) (butlast cs)"
    and c: "case out of
             Inr (v, s') \<Rightarrow>
               delivered (last cs) (answers w (length (trace s') - 1))
               \<and> v = remap mn mx (r_buf (answers w (length (trace s') - 1)))
           | Inl (f, s') \<Rightarrow>
               \<not> delivered (last cs) (answers w (length (trace s') - 1))
               \<and> Some f = fatal_of w (last cs) (answers w (length (trace s') - 1))"
    unfolding outcome_ok_def by blast
  have "no_failure w (length (trace s)) cs" if "out = Inr (v, s')" for v s'
  proof -
    from that cs(2) have "length (trace s') - 1 = length (trace s) + length cs - 1" by simp
    with that c have "\<not> failure (last cs) (answers w (length (trace s) + length cs - 1))"
      by (simp add: delivered_not_failure)
    from no_failure_butlast [OF cs(1) cs(3) this] show ?thesis .
  qed
  with cs c show ?thesis
    by (intro exI [of _ cs]) (cases out; auto)
qed

text \<open>
  Claim C8. \<^verbatim>\<open>rand\<close> does nothing with its arguments but hand them to the distribution, whatever
  their order: its outcome is the outcome of the distribution on the static layer; the only
  fatal terminations are those of the entropy source; every value returned is the remapping of a
  raw draw; and a value is returned as soon as a raw draw arrives that the distribution does not
  reject. None of this asks for \<open>mn \<le> mx\<close>.
\<close>

theorem rand_unvalidated:
  "rand t w mn mx s =
     (case static_layer t w s of
        Inl e \<Rightarrow> Some (Inl e)
      | Inr (l, s') \<Rightarrow> uniform_int_distribution mn mx (RandomLayer_call w l) s')
   \<and> (\<forall>f s'. rand t w mn mx s = Some (Inl (f, s')) \<longrightarrow> (\<exists>c r. fatal_of w c r = Some f))
   \<and> (\<forall>v s'. rand t w mn mx s = Some (Inr (v, s'))
         \<longrightarrow> (\<exists>n x. raw_draw t w n s = Inr (x, s') \<and> v = remap mn mx x))
   \<and> (\<forall>n x s1. raw_draw t w n s = Inr (x, s1) \<and> \<not> rejected mn mx x
         \<longrightarrow> (\<exists>v s'. rand t w mn mx s = Some (Inr (v, s'))))"
proof (intro conjI allI impI)
  show "rand t w mn mx s =
     (case static_layer t w s of
        Inl e \<Rightarrow> Some (Inl e)
      | Inr (l, s') \<Rightarrow> uniform_int_distribution mn mx (RandomLayer_call w l) s')"
    by (simp add: rand_def)
next
  fix f s'
  assume "rand t w mn mx s = Some (Inl (f, s'))"
  from rand_ok [OF this] show "\<exists>c r. fatal_of w c r = Some f"
    unfolding outcome_ok_def by (auto dest: sym)
next
  fix v s'
  assume "rand t w mn mx s = Some (Inr (v, s'))"
  then show "\<exists>n x. raw_draw t w n s = Inr (x, s') \<and> v = remap mn mx x"
    by (rule rand_value)
next
  fix n x s1
  assume "raw_draw t w n s = Inr (x, s1) \<and> \<not> rejected mn mx x"
  then show "\<exists>v s'. rand t w mn mx s = Some (Inr (v, s'))"
    using rand_returns by blast
qed

section \<open>The result depends on the raw draws only\<close>

lemma value_of_simps [simp]:
  "value_of (Inl e) = None" "value_of (Inr (v, s)) = Some v"
  by (simp_all add: value_of_def)

lemma value_of_Some: "value_of d = Some x \<longleftrightarrow> (\<exists>s. d = Inr (x, s))"
  by (cases d) (auto simp: value_of_def)

lemma same_draws_step:
  assumes "\<forall>n. value_of (draws g n s) = value_of (draws g2 n s2)" and "g s = Inr (x, sa)"
  shows "\<exists>sb. g2 s2 = Inr (x, sb) \<and> (\<forall>n. value_of (draws g n sa) = value_of (draws g2 n sb))"
proof -
  from assms(1) have "value_of (draws g 0 s) = value_of (draws g2 0 s2)" ..
  with assms(2) have "value_of (g2 s2) = Some x" by simp
  then obtain sb where sb: "g2 s2 = Inr (x, sb)" by (auto simp: value_of_Some)
  have "value_of (draws g n sa) = value_of (draws g2 n sb)" for n
    using assms(1) [rule_format, of "Suc n"] assms(2) sb by simp
  with sb show ?thesis by blast
qed

lemma S_nd_loop_same:
  assumes "S_nd_loop g r t p s = Some out"
  shows "\<forall>q s' s2. out = Inr (q, s')
           \<longrightarrow> (\<forall>n. value_of (draws g n s) = value_of (draws g2 n s2))
           \<longrightarrow> (\<exists>s2'. S_nd_loop g2 r t p s2 = Some (Inr (q, s2')))"
  using assms
proof (induction rule: S_nd_loop.raw_induct [rotated 1, consumes 1])
  case (1 loop g r t p s out)
  show ?case
  proof (intro allI impI)
    fix q s' s2
    assume out: "out = Inr (q, s')"
      and seq: "\<forall>n. value_of (draws g n s) = value_of (draws g2 n s2)"
    show "\<exists>s2'. S_nd_loop g2 r t p s2 = Some (Inr (q, s2'))"
    proof (cases "(ucast p :: u32) < t")
      case False
      with 1(2) out have "q = p" by simp
      with False show ?thesis by (simp add: S_nd_loop.simps [of g2 r t p s2])
    next
      case True
      show ?thesis
      proof (cases "g s")
        case (Inl e)
        with True 1(2) out show ?thesis by simp
      next
        case (Inr xs)
        obtain x sa where xs: "xs = (x, sa)" by (cases xs)
        with True Inr 1(2) have rec: "loop g r t (ucast x * ucast r) sa = Some out" by simp
        from same_draws_step [OF seq] Inr xs obtain sb where
          sb: "g2 s2 = Inr (x, sb)" "\<forall>n. value_of (draws g n sa) = value_of (draws g2 n sb)"
          by blast
        from 1(1) [OF rec] out sb(2) obtain s2' where
          "S_nd_loop g2 r t (ucast x * ucast r) sb = Some (Inr (q, s2'))" by blast
        with True sb(1) show ?thesis by (simp add: S_nd_loop.simps [of g2 r t p s2])
      qed
    qed
  qed
qed

lemma S_nd_same:
  assumes "S_nd g r s = Some (Inr (v, s'))"
    and seq: "\<forall>n. value_of (draws g n s) = value_of (draws g2 n s2)"
  shows "\<exists>s2'. S_nd g2 r s2 = Some (Inr (v, s2'))"
proof (cases "g s")
  case (Inl e)
  with assms(1) show ?thesis by (simp add: S_nd_def)
next
  case (Inr xs)
  obtain x sa where xs: "xs = (x, sa)" by (cases xs)
  from same_draws_step [OF seq] Inr xs obtain sb where
    sb: "g2 s2 = Inr (x, sb)" "\<forall>n. value_of (draws g n sa) = value_of (draws g2 n sb)"
    by blast
  show ?thesis
  proof (cases "(ucast (ucast x * ucast r :: u64) :: u32) < r")
    case False
    with assms(1) Inr xs sb(1) show ?thesis by (auto simp: S_nd_def)
  next
    case True
    with assms(1) Inr xs obtain o' where
      l: "S_nd_loop g r ((- r) mod r) (ucast x * ucast r) sa = Some o'"
      and o: "Inr (v, s') = map_sum id (\<lambda>(p :: u64, s'' :: proc). (ucast (drop_bit 32 p) :: u32, s'')) o'"
      by (auto simp: S_nd_def)
    from o obtain q where o': "o' = Inr (q, s')" and v: "v = ucast (drop_bit 32 q)"
      by (cases o') auto
    from S_nd_loop_same [OF l, of g2] o' sb(2) obtain s2' where
      "S_nd_loop g2 r ((- r) mod r) (ucast x * ucast r) sb = Some (Inr (q, s2'))" by blast
    with True sb(1) v show ?thesis by (simp add: S_nd_def)
  qed
qed

lemma uniform_int_distribution_same_draws:
  assumes "uniform_int_distribution a b g s = Some (Inr (v, s'))"
    and seq: "\<forall>n. value_of (draws g n s) = value_of (draws g2 n s2)"
  shows "\<exists>s2'. uniform_int_distribution a b g2 s2 = Some (Inr (v, s2'))"
proof (cases "b - a = - 1")
  case True
  with assms(1) obtain x where "g s = Inr (x, s')" and v: "v = x - RandomLayer_min + a"
    by (cases "g s")
       (auto simp: uniform_int_distribution_def RandomLayer_max_def RandomLayer_min_def)
  from same_draws_step [OF seq this(1)] obtain sb where "g2 s2 = Inr (x, sb)" by blast
  with True v show ?thesis
    by (simp add: uniform_int_distribution_def RandomLayer_max_def RandomLayer_min_def)
next
  case False
  then have lt: "b - a < - 1" by (simp add: word_order.not_eq_extremum)
  with assms(1) obtain o' where n: "S_nd g (b - a + 1) s = Some o'"
    and o: "Inr (v, s') = map_sum id (\<lambda>(r, s'). (r + a, s')) o'"
    by (auto simp: uniform_int_distribution_def RandomLayer_max_def RandomLayer_min_def)
  from o obtain u where o': "o' = Inr (u, s')" and v: "v = u + a"
    by (cases o') auto
  from S_nd_same [OF n [unfolded o'] seq] obtain s2' where
    "S_nd g2 (b - a + 1) s2 = Some (Inr (u, s2'))" ..
  with lt v show ?thesis
    by (simp add: uniform_int_distribution_def RandomLayer_max_def RandomLayer_min_def)
qed

lemma rand_same_draws:
  assumes "rand t1 w1 mn mx s1 = Some (Inr (v, s'))"
    and seq: "\<forall>n. value_of (raw_draw t1 w1 n s1) = value_of (raw_draw t2 w2 n s2)"
  shows "\<exists>s2'. rand t2 w2 mn mx s2 = Some (Inr (v, s2'))"
proof -
  from assms(1) obtain l1 sa where a: "static_layer t1 w1 s1 = Inr (l1, sa)"
    and u: "uniform_int_distribution mn mx (RandomLayer_call w1 l1) sa = Some (Inr (v, s'))"
    by (cases "static_layer t1 w1 s1") (auto simp: rand_def)
  from uniform_int_distribution_value [OF u] obtain n x where
    "draws (RandomLayer_call w1 l1) n sa = Inr (x, s')" by blast
  with a seq [rule_format, of n] have "value_of (raw_draw t2 w2 n s2) = Some x"
    by (simp add: raw_draw_def)
  then obtain l2 sb where b: "static_layer t2 w2 s2 = Inr (l2, sb)"
    by (cases "static_layer t2 w2 s2") (auto simp: raw_draw_def)
  from seq a b
  have "\<forall>n. value_of (draws (RandomLayer_call w1 l1) n sa)
           = value_of (draws (RandomLayer_call w2 l2) n sb)"
    by (simp add: raw_draw_def)
  from uniform_int_distribution_same_draws [OF u this] b show ?thesis
    by (simp add: rand_def)
qed

lemma returned_Some: "returned r = Some v \<longleftrightarrow> (\<exists>s. r = Some (Inr (v, s)))"
  by (cases r) (auto simp: returned_def value_of_Some)

text \<open>
  Claim C10. For \<open>mn \<le> mx\<close>, two runs of \<^verbatim>\<open>rand(mn, mx)\<close> whose sources yield the same sequence
  of raw draws return the same value (or both return none), whatever the target, the environment
  and the process they run in.
\<close>

theorem rand_deterministic:
  assumes "mn \<le> mx"
    and "\<forall>n. value_of (raw_draw t1 w1 n s1) = value_of (raw_draw t2 w2 n s2)"
  shows "returned (rand t1 w1 mn mx s1) = returned (rand t2 w2 mn mx s2)"
proof -
  have fwd: "returned (rand t1 w1 mn mx s1) = Some v \<Longrightarrow> returned (rand t2 w2 mn mx s2) = Some v"
    for v using rand_same_draws [OF _ assms(2)] by (auto simp: returned_Some)
  from assms(2) have "\<forall>n. value_of (raw_draw t2 w2 n s2) = value_of (raw_draw t1 w1 n s1)"
    by simp
  then have bwd: "returned (rand t2 w2 mn mx s2) = Some v \<Longrightarrow> returned (rand t1 w1 mn mx s1) = Some v"
    for v using rand_same_draws by (auto simp: returned_Some)
  show ?thesis
  proof (cases "returned (rand t1 w1 mn mx s1)")
    case None
    with bwd show ?thesis by (cases "returned (rand t2 w2 mn mx s2)") auto
  next
    case (Some v)
    with fwd show ?thesis by simp
  qed
qed

section \<open>The claims on concrete runs\<close>

lemmas run_defs =
  rand_def static_layer_def RandomLayer_ctor_def RandomLayer_call_def
  win_RandomLayer_def win_operator_def linux_RandomLayer_def linux_operator_def
  posix_RandomLayer_def posix_operator_def getrandom_loop.simps RETRY_MAX_def syscall_def
  uniform_int_distribution_def S_nd_def S_nd_loop.simps RandomLayer_max_def RandomLayer_min_def
  fresh_def after_calls_def answer_at_def state_of_def

lemma demo_first_draw:
  "raw_draw Q_OS_LINUX demo_os 0 fresh =
     Inr (7, \<lparr>trace = [Getrandom 4 0, Getrandom 4 0], layer = Some LinuxLayer\<rparr>)"
  by (simp add: raw_draw_def static_layer_def fresh_def RandomLayer_ctor_def
        linux_RandomLayer_def RandomLayer_call_def linux_operator_def getrandom_loop.simps
        RETRY_MAX_def syscall_def demo_os_def)

theorem rand_in_range_witness:
  "(100 :: u32) \<le> 200 \<and>
   (\<exists>v s'. rand Q_OS_LINUX demo_os 100 200 fresh = Some (Inr (v, s')) \<and> 100 \<le> v \<and> v \<le> 200)"
proof -
  have le: "(100 :: u32) \<le> 200" by simp
  have acc: "\<not> rejected 100 200 7" by (simp add: rejected_def)
  from rand_in_range [OF le, of Q_OS_LINUX demo_os fresh] demo_first_draw acc
  obtain v s' where r: "rand Q_OS_LINUX demo_os 100 200 fresh = Some (Inr (v, s'))"
    by blast
  with rand_in_range [OF le, of Q_OS_LINUX demo_os fresh] have "100 \<le> v \<and> v \<le> 200"
    by blast
  with le r show ?thesis by blast
qed

theorem rand_same_witness:
  "rand Q_OS_LINUX demo_os 5 5 fresh =
     Some (Inr (5, \<lparr>trace = [Getrandom 4 0, Getrandom 4 0], layer = Some LinuxLayer\<rparr>))
   \<and> rand Q_OS_LINUX demo_os 0 0 fresh =
     Some (Inr (0, \<lparr>trace = [Getrandom 4 0, Getrandom 4 0], layer = Some LinuxLayer\<rparr>))"
  using rand_same [of Q_OS_LINUX demo_os 5 fresh] rand_same [of Q_OS_LINUX demo_os 0 fresh]
    demo_first_draw
  by simp

theorem rand_full_range_witness:
  "rand Q_OS_LINUX demo_os 0 (- 1) fresh =
     Some (Inr (7, \<lparr>trace = [Getrandom 4 0, Getrandom 4 0], layer = Some LinuxLayer\<rparr>))"
  using rand_full_range [of Q_OS_LINUX demo_os fresh] demo_first_draw
  by simp

theorem linux_operator_blocking_counterexample:
  "trace (state_of (linux_operator demo_os fresh)) = [Getrandom 4 0, Getrandom 4 0]
   \<and> \<not> getrandom_nonblocking 0"
  by (simp add: run_defs demo_os_def getrandom_nonblocking_def)

theorem linux_operator_attempts_witness:
  "linux_operator demo_os fresh =
     Inr (7, \<lparr>trace = [Getrandom 4 0, Getrandom 4 0], layer = None\<rparr>)"
proof -
  let ?r = "\<lambda>j. r_ret (answer_at demo_os fresh j)"
  from linux_operator_attempts [of demo_os fresh] obtain n where
    n: "1 \<le> n" "n \<le> 3"
    and short: "\<forall>j. Suc j < n \<longrightarrow> 0 \<le> ?r j \<and> ?r j \<noteq> 4"
    and last: "let r = answer_at demo_os fresh (n - 1);
                   s' = after_calls fresh (replicate n (Getrandom 4 0))
               in if r_ret r = 4 then linux_operator demo_os fresh = Inr (r_buf r, s')
                  else if r_ret r < 0
                       then linux_operator demo_os fresh = Inl (getrandom_error demo_os r, s')
                       else n = 3 \<and> linux_operator demo_os fresh = Inl (too_many_retries, s')"
    by blast
  from n consider "n = 1" | "n = 2" | "n = 3" by linarith
  then show ?thesis
  proof cases
    case 1
    with last show ?thesis by (simp add: answer_at_def fresh_def demo_os_def)
  next
    case 2
    with last show ?thesis
      by (simp add: answer_at_def fresh_def demo_os_def after_calls_def eval_nat_numeral)
  next
    case 3
    with short have "?r 1 \<noteq> 4" by simp
    then show ?thesis by (simp add: answer_at_def fresh_def demo_os_def)
  qed
qed

theorem posix_layer_witness:
  "posix_RandomLayer failing_os fresh =
     Inl (Fatal ''Failed to open /dev/urandom. Reason: %s. Error code: %d.''
            [ArgStr ''No such file or directory'', ArgInt 2],
          \<lparr>trace = [Fopen ''/dev/urandom'' ''rb''], layer = None\<rparr>)
   \<and> posix_RandomLayer steady_os fresh =
     Inr (PosixLayer 1, \<lparr>trace = [Fopen ''/dev/urandom'' ''rb''], layer = None\<rparr>)
   \<and> posix_operator failing_os 1 fresh =
     Inl (Fatal ''Read /dev/urandom error. Reason: %s. Error code: %d.''
            [ArgStr ''No such file or directory'', ArgInt 2],
          \<lparr>trace = [Fread 4 1 1], layer = None\<rparr>)
   \<and> posix_operator steady_os 1 fresh = Inr (7, \<lparr>trace = [Fread 4 1 1], layer = None\<rparr>)
   \<and> rand Q_OS_OTHER steady_os 100 200 fresh =
     Some (Inr (100, \<lparr>trace = [Fopen ''/dev/urandom'' ''rb'', Fread 4 1 1],
                       layer = Some (PosixLayer 1)\<rparr>))
   \<and> rand Q_OS_OTHER steady_os 100 200
       \<lparr>trace = [Fopen ''/dev/urandom'' ''rb'', Fread 4 1 1], layer = Some (PosixLayer 1)\<rparr> =
     Some (Inr (100, \<lparr>trace = [Fopen ''/dev/urandom'' ''rb'', Fread 4 1 1, Fread 4 1 1],
                       layer = Some (PosixLayer 1)\<rparr>))
   \<and> at_exit steady_os
       \<lparr>trace = [Fopen ''/dev/urandom'' ''rb'', Fread 4 1 1], layer = Some (PosixLayer 1)\<rparr> =
     \<lparr>trace = [Fopen ''/dev/urandom'' ''rb'', Fread 4 1 1, Fclose 1], layer = Some (PosixLayer 1)\<rparr>"
proof -
  have r1: "rand Q_OS_OTHER steady_os 100 200 fresh =
     Some (Inr (100, \<lparr>trace = [Fopen ''/dev/urandom'' ''rb'', Fread 4 1 1],
                       layer = Some (PosixLayer 1)\<rparr>))"
    by (simp add: run_defs steady_os_def)
  have r2: "rand Q_OS_OTHER steady_os 100 200
       \<lparr>trace = [Fopen ''/dev/urandom'' ''rb'', Fread 4 1 1], layer = Some (PosixLayer 1)\<rparr> =
     Some (Inr (100, \<lparr>trace = [Fopen ''/dev/urandom'' ''rb'', Fread 4 1 1, Fread 4 1 1],
                       layer = Some (PosixLayer 1)\<rparr>))"
    by (simp add: run_defs steady_os_def)
  from r1 r2
    posix_layer [where w = failing_os and s = fresh and f = 1]
    posix_layer [of steady_os fresh 1 100 200 "Inr (100, \<lparr>trace = [Fopen ''/dev/urandom'' ''rb'', Fread 4 1 1],
                       layer = Some (PosixLayer 1)\<rparr>)"]
    posix_layer [of steady_os "\<lparr>trace = [Fopen ''/dev/urandom'' ''rb'', Fread 4 1 1], layer = Some (PosixLayer 1)\<rparr>" 1]
  show ?thesis
    by (simp add: answer_at_def after_calls_def fresh_def steady_os_def failing_os_def)
qed

theorem win_layer_witness:
  "win_RandomLayer failing_os fresh =
     Inl (Fatal ''Failed to load ProcessPrng().'' [],
          \<lparr>trace = [LoadWinAPI ''BCryptPrimitives.dll'' ''ProcessPrng''], layer = None\<rparr>)
   \<and> win_RandomLayer once_os fresh =
     Inr (WinLayer 1, \<lparr>trace = [LoadWinAPI ''BCryptPrimitives.dll'' ''ProcessPrng''], layer = None\<rparr>)
   \<and> win_operator failing_os 1 fresh =
     Inl (Fatal ''ProcessPrng() failed.'' [], \<lparr>trace = [ProcessPrng 1 4], layer = None\<rparr>)
   \<and> win_operator once_os 1 fresh = Inr (7, \<lparr>trace = [ProcessPrng 1 4], layer = None\<rparr>)
   \<and> rand Q_OS_WIN once_os 100 200 fresh =
     Some (Inr (100, \<lparr>trace = [LoadWinAPI ''BCryptPrimitives.dll'' ''ProcessPrng'', ProcessPrng 1 4],
                       layer = Some (WinLayer 1)\<rparr>))
   \<and> rand Q_OS_WIN once_os 100 200
       \<lparr>trace = [LoadWinAPI ''BCryptPrimitives.dll'' ''ProcessPrng'', ProcessPrng 1 4],
          layer = Some (WinLayer 1)\<rparr> =
     Some (Inl (Fatal ''ProcessPrng() failed.'' [],
       \<lparr>trace = [LoadWinAPI ''BCryptPrimitives.dll'' ''ProcessPrng'', ProcessPrng 1 4, ProcessPrng 1 4],
          layer = Some (WinLayer 1)\<rparr>))"
proof -
  have r1: "rand Q_OS_WIN once_os 100 200 fresh =
     Some (Inr (100, \<lparr>trace = [LoadWinAPI ''BCryptPrimitives.dll'' ''ProcessPrng'', ProcessPrng 1 4],
                       layer = Some (WinLayer 1)\<rparr>))"
    by (simp add: run_defs once_os_def)
  have r2: "rand Q_OS_WIN once_os 100 200
       \<lparr>trace = [LoadWinAPI ''BCryptPrimitives.dll'' ''ProcessPrng'', ProcessPrng 1 4],
          layer = Some (WinLayer 1)\<rparr> =
     Some (Inl (Fatal ''ProcessPrng() failed.'' [],
       \<lparr>trace = [LoadWinAPI ''BCryptPrimitives.dll'' ''ProcessPrng'', ProcessPrng 1 4, ProcessPrng 1 4],
          layer = Some (WinLayer 1)\<rparr>))"
    by (simp add: run_defs once_os_def)
  from r1 r2
    win_layer [where w = failing_os and s = fresh and p = 1]
    win_layer [where w = once_os and s = fresh and p = 1 and mn = 100 and mx = 200]
  show ?thesis
    by (simp add: answer_at_def after_calls_def fresh_def once_os_def failing_os_def)
qed

theorem rand_fatal_or_value_witness:
  "(\<exists>cs. cs \<noteq> []
      \<and> [Getrandom 4 0, Getrandom 4 0] = [] @ cs
      \<and> no_failure demo_os 0 (butlast cs)
      \<and> no_failure demo_os 0 cs
      \<and> delivered (last cs) (answers demo_os 1)
      \<and> (100 :: u32) = remap 100 200 (r_buf (answers demo_os 1)))
   \<and> (\<exists>cs. cs \<noteq> []
      \<and> [Fopen ''/dev/urandom'' ''rb''] = [] @ cs
      \<and> no_failure failing_os 0 (butlast cs)
      \<and> \<not> delivered (last cs) (answers failing_os 0)
      \<and> Some (Fatal ''Failed to open /dev/urandom. Reason: %s. Error code: %d.''
                 [ArgStr ''No such file or directory'', ArgInt 2])
          = fatal_of failing_os (last cs) (answers failing_os 0))"
proof -
  have r1: "rand Q_OS_LINUX demo_os 100 200 fresh =
      Some (Inr (100, \<lparr>trace = [Getrandom 4 0, Getrandom 4 0], layer = Some LinuxLayer\<rparr>))"
    by (simp add: run_defs demo_os_def)
  have r2: "rand Q_OS_OTHER failing_os 100 200 fresh =
      Some (Inl (Fatal ''Failed to open /dev/urandom. Reason: %s. Error code: %d.''
                   [ArgStr ''No such file or directory'', ArgInt 2],
                 \<lparr>trace = [Fopen ''/dev/urandom'' ''rb''], layer = None\<rparr>))"
    by (simp add: run_defs failing_os_def)
  from rand_fatal_or_value [OF r1] rand_fatal_or_value [OF r2] show ?thesis
    by (simp add: fresh_def)
qed

theorem rand_unvalidated_witness:
  "(3 :: u32) < 5 \<and> (\<exists>v s'. rand Q_OS_LINUX demo_os 5 3 fresh = Some (Inr (v, s')))"
proof -
  have "\<not> rejected 5 3 7" by code_simp
  with rand_unvalidated [of Q_OS_LINUX demo_os 5 3 fresh] demo_first_draw
  have "\<exists>v s'. rand Q_OS_LINUX demo_os 5 3 fresh = Some (Inr (v, s'))" by blast
  then show ?thesis by simp
qed

lemma draws_after_failure: "g s = Inl e \<Longrightarrow> draws g n s = Inl e"
  by (cases n) simp_all

lemma demo_draws:
  "value_of (raw_draw Q_OS_LINUX demo_os n fresh) = (if n = 0 then Some 7 else None)"
proof (cases n)
  case 0
  then show ?thesis by (simp add: demo_first_draw)
next
  case (Suc m)
  let ?g = "RandomLayer_call demo_os LinuxLayer"
  let ?s0 = "\<lparr>trace = [], layer = Some LinuxLayer\<rparr>"
  let ?s1 = "\<lparr>trace = [Getrandom 4 0, Getrandom 4 0], layer = Some LinuxLayer\<rparr>"
  have l: "static_layer Q_OS_LINUX demo_os fresh = Inr (LinuxLayer, ?s0)"
    by (simp add: run_defs)
  have a: "?g ?s0 = Inr (7, ?s1)"
    by (simp add: run_defs demo_os_def)
  have b: "?g ?s1 = Inl (getrandom_error demo_os \<lparr>r_ret = - 1, r_buf = 0, r_errno = 11\<rparr>,
      \<lparr>trace = [Getrandom 4 0, Getrandom 4 0, Getrandom 4 0], layer = Some LinuxLayer\<rparr>)"
    by (simp add: run_defs demo_os_def getrandom_error_def)
  from Suc l a draws_after_failure [where g = ?g and s = ?s1 and n = m, OF b] show ?thesis
    by (simp add: raw_draw_def)
qed

lemma once_draws:
  "value_of (raw_draw Q_OS_OTHER once_os n fresh) = (if n = 0 then Some 7 else None)"
proof -
  let ?g = "RandomLayer_call once_os (PosixLayer 1)"
  let ?s0 = "\<lparr>trace = [Fopen ''/dev/urandom'' ''rb''], layer = Some (PosixLayer 1)\<rparr>"
  let ?s1 = "\<lparr>trace = [Fopen ''/dev/urandom'' ''rb'', Fread 4 1 1], layer = Some (PosixLayer 1)\<rparr>"
  have l: "static_layer Q_OS_OTHER once_os fresh = Inr (PosixLayer 1, ?s0)"
    by (simp add: run_defs once_os_def)
  have a: "?g ?s0 = Inr (7, ?s1)"
    by (simp add: run_defs once_os_def)
  have b: "?g ?s1 = Inl (read_error once_os \<lparr>r_ret = 0, r_buf = 0, r_errno = 5\<rparr>,
      \<lparr>trace = [Fopen ''/dev/urandom'' ''rb'', Fread 4 1 1, Fread 4 1 1], layer = Some (PosixLayer 1)\<rparr>)"
    by (simp add: run_defs once_os_def read_error_def)
  show ?thesis
  proof (cases n)
    case 0
    with l a show ?thesis by (simp add: raw_draw_def)
  next
    case (Suc m)
    with l a draws_after_failure [where g = ?g and s = ?s1 and n = m, OF b] show ?thesis
      by (simp add: raw_draw_def)
  qed
qed

theorem rand_deterministic_witness:
  "(100 :: u32) \<le> 200
   \<and> returned (rand Q_OS_LINUX demo_os 100 200 fresh) = returned (rand Q_OS_OTHER once_os 100 200 fresh)
   \<and> returned (rand Q_OS_OTHER once_os 100 200 fresh) = Some 100"
proof -
  have le: "(100 :: u32) \<le> 200" by simp
  have seq: "\<forall>n. value_of (raw_draw Q_OS_LINUX demo_os n fresh)
               = value_of (raw_draw Q_OS_OTHER once_os n fresh)"
    by (simp add: demo_draws once_draws)
  have "returned (rand Q_OS_OTHER once_os 100 200 fresh) = Some 100"
    by (simp add: run_defs once_os_def returned_def)
  with le rand_deterministic [OF le seq] show ?thesis by simp
qed

end
